theory Spec2Isabelle
  imports Complex_Main "HOL-Library.Multiset" "HOL-Library.AList"
begin

section \<open>Numbers and time\<close>

text \<open>
  The engine is JavaScript: its numbers are IEEE-754 doubles. The model takes a number to
  be the rational it denotes and computes \<open>+\<close>, \<open>-\<close>, \<open>*\<close> and \<open>/\<close> exactly, which is what
  the doubles do on integers of magnitude at most \<open>2^53\<close> whenever the result is again
  such an integer. Comparisons of doubles are exact. \<open>NaN\<close> and the infinities are not
  modelled. Timestamps (\<open>Date.now()\<close>) are integers, in milliseconds.
\<close>

type_synonym number = rat
type_synonym time = int

definition MAX_SAFE_INTEGER :: number where
  "MAX_SAFE_INTEGER = 9007199254740991"

section \<open>SafeMath\<close>

text \<open>\<open>console.warn\<close> is the only effect of these functions and is left out.\<close>

definition SafeMath_add :: "number \<Rightarrow> number \<Rightarrow> number" where
  "SafeMath_add a b =
     (let result = a + b in
      if result < a \<or> result < b then MAX_SAFE_INTEGER else result)"

definition SafeMath_subtract :: "number \<Rightarrow> number \<Rightarrow> number" where
  "SafeMath_subtract a b = (if b > a then 0 else a - b)"

definition SafeMath_multiply :: "number \<Rightarrow> number \<Rightarrow> number" where
  "SafeMath_multiply a b =
     (if a = 0 \<or> b = 0 then 0
      else let result = a * b in
        if result / a \<noteq> b \<or> result / b \<noteq> a then MAX_SAFE_INTEGER else result)"

definition SafeMath_divide :: "number \<Rightarrow> number \<Rightarrow> number" where
  "SafeMath_divide a b = (if b = 0 then 0 else a / b)"

definition SafeMath_clamp :: "number \<Rightarrow> number \<Rightarrow> number \<Rightarrow> number" where
  "SafeMath_clamp v lo hi = min (max v lo) hi"

definition SafeMath_percentage :: "number \<Rightarrow> number \<Rightarrow> number" where
  "SafeMath_percentage v percentage = SafeMath_multiply v (SafeMath_divide percentage 100)"

section \<open>CacheManager\<close>

text \<open>
  The cache is a JavaScript \<open>Map\<close>: an association list in insertion order, in which
  \<open>Map.set\<close> of a key already there replaces its entry in place (\<open>AList.update\<close>) and
  \<open>Map.delete\<close> removes it (\<open>AList.delete\<close>). Every operation takes the value \<open>now\<close> that
  \<open>Date.now()\<close> has during the call. In the configuration an absent field is \<open>0\<close>, which
  \<open>||\<close> treats as it treats \<open>undefined\<close>. The interval timer of the constructor calls
  \<open>prune()\<close>: it is the operation \<open>CacheManager_prune c False now\<close>.
\<close>

record 'v CacheEntry =
  entry_value :: 'v
  expiresAt :: time
  lastAccessed :: time

record caching_config =
  cfg_TTL :: time
  cfg_MAX_SIZE :: nat
  cfg_PRUNE_INTERVAL :: time

record ('k, 'v) CacheManager =
  ttl :: time
  maxSize :: nat
  pruneInterval :: time
  cache :: "('k \<times> 'v CacheEntry) list"
  lastPruneTime :: time

definition CacheManager_new :: "caching_config \<Rightarrow> time \<Rightarrow> ('k, 'v) CacheManager" where
  "CacheManager_new config now =
     \<lparr> ttl = (if cfg_TTL config = 0 then 300000 else cfg_TTL config),
       maxSize = (if cfg_MAX_SIZE config = 0 then 1000 else cfg_MAX_SIZE config),
       pruneInterval = (if cfg_PRUNE_INTERVAL config = 0 then 60000 else cfg_PRUNE_INTERVAL config),
       cache = [],
       lastPruneTime = now \<rparr>"

definition CacheManager_get ::
  "('k, 'v) CacheManager \<Rightarrow> 'k \<Rightarrow> time \<Rightarrow> 'v option \<times> ('k, 'v) CacheManager" where
  "CacheManager_get c key now =
     (case map_of (cache c) key of
        None \<Rightarrow> (None, c)
      | Some item \<Rightarrow>
          if now > expiresAt item then (None, c\<lparr>cache := AList.delete key (cache c)\<rparr>)
          else (Some (entry_value item),
                c\<lparr>cache := AList.update key (item\<lparr>lastAccessed := now\<rparr>) (cache c)\<rparr>))"

definition CacheManager_prune ::
  "('k, 'v) CacheManager \<Rightarrow> bool \<Rightarrow> time \<Rightarrow> ('k, 'v) CacheManager" where
  "CacheManager_prune c force now =
     (if \<not> force \<and> now - lastPruneTime c < pruneInterval c then c
      else
        let live = filter (\<lambda>(key, item). \<not> now > expiresAt item) (cache c) in
        if length live > maxSize c then
          let items = sort_key (\<lambda>(key, item). lastAccessed item) live;
              itemsToRemove = take (length items - maxSize c) items
          in c\<lparr>lastPruneTime := now,
                cache := fold (\<lambda>(key, item). AList.delete key) itemsToRemove live\<rparr>
        else c\<lparr>lastPruneTime := now, cache := live\<rparr>)"

definition CacheManager_set ::
  "('k, 'v) CacheManager \<Rightarrow> 'k \<Rightarrow> 'v \<Rightarrow> time option \<Rightarrow> time \<Rightarrow> ('k, 'v) CacheManager" where
  "CacheManager_set c key v ttl_arg now =
     (let c1 = (if length (cache c) \<ge> maxSize c then CacheManager_prune c True now else c);
          t = (case ttl_arg of None \<Rightarrow> ttl c1 | Some d \<Rightarrow> if d = 0 then ttl c1 else d);
          item = \<lparr> entry_value = v, expiresAt = now + t, lastAccessed = now \<rparr>
      in c1\<lparr>cache := AList.update key item (cache c1)\<rparr>)"

definition CacheManager_delete ::
  "('k, 'v) CacheManager \<Rightarrow> 'k \<Rightarrow> bool \<times> ('k, 'v) CacheManager" where
  "CacheManager_delete c key =
     (key \<in> fst ` set (cache c), c\<lparr>cache := AList.delete key (cache c)\<rparr>)"

definition cache_size :: "('k, 'v) CacheManager \<Rightarrow> nat" where
  "cache_size c = length (cache c)"

section \<open>ThrottlingManager\<close>

text \<open>
  The two \<open>Map\<close>s of the manager are partial functions from the source (an IP or any
  client key) and \<open>globalRequests\<close> is the array of timestamps, oldest first. As in the
  cache, an absent configuration field is \<open>0\<close>, and every operation takes the value
  \<open>now\<close> of \<open>Date.now()\<close>. An operation returns its result and the manager after it.
\<close>

record throttling_config =
  cfg_ENABLED :: bool
  cfg_MAX_REQUESTS_PER_SECOND :: nat
  cfg_MAX_REQUESTS_PER_IP :: nat
  cfg_WINDOW_MS :: time
  cfg_BLOCK_DURATION :: time

record 'ip ThrottlingManager =
  maxRequestsPerSecond :: nat
  maxRequestsPerIP :: nat
  windowMs :: time
  blockDuration :: time
  requests :: "'ip \<rightharpoonup> time list"
  blockedIPs :: "'ip \<rightharpoonup> time"
  globalRequests :: "time list"

definition ThrottlingManager_new :: "throttling_config \<Rightarrow> 'ip ThrottlingManager" where
  "ThrottlingManager_new config =
     \<lparr> maxRequestsPerSecond =
         (if cfg_MAX_REQUESTS_PER_SECOND config = 0 then 100 else cfg_MAX_REQUESTS_PER_SECOND config),
       maxRequestsPerIP =
         (if cfg_MAX_REQUESTS_PER_IP config = 0 then 20 else cfg_MAX_REQUESTS_PER_IP config),
       windowMs = (if cfg_WINDOW_MS config = 0 then 60000 else cfg_WINDOW_MS config),
       blockDuration = (if cfg_BLOCK_DURATION config = 0 then 300000 else cfg_BLOCK_DURATION config),
       requests = Map.empty,
       blockedIPs = Map.empty,
       globalRequests = [] \<rparr>"

definition still_blocked :: "'ip ThrottlingManager \<Rightarrow> 'ip \<Rightarrow> time \<Rightarrow> bool" where
  "still_blocked tm ip now =
     (case blockedIPs tm ip of None \<Rightarrow> False | Some blockExpiry \<Rightarrow> now < blockExpiry)"

definition ThrottlingManager_isAllowed ::
  "'ip ThrottlingManager \<Rightarrow> 'ip \<Rightarrow> time \<Rightarrow> bool \<times> 'ip ThrottlingManager" where
  "ThrottlingManager_isAllowed tm ip now =
     (if still_blocked tm ip now then (False, tm)
      else
        let tm1 = tm\<lparr>blockedIPs := (blockedIPs tm)(ip := None),
                     globalRequests := filter (\<lambda>timestamp. now - timestamp < 1000) (globalRequests tm)\<rparr>
        in if length (globalRequests tm1) \<ge> maxRequestsPerSecond tm1 then (False, tm1)
        else
          let tm2 = (case requests tm1 ip of
                       None \<Rightarrow> tm1\<lparr>requests := (requests tm1)(ip \<mapsto> [])\<rparr>
                     | Some old \<Rightarrow> tm1);
              ipRequests = filter (\<lambda>timestamp. now - timestamp < windowMs tm2)
                             (case requests tm2 ip of None \<Rightarrow> [] | Some old \<Rightarrow> old)
          in if length ipRequests \<ge> maxRequestsPerIP tm2
             then (False, tm2\<lparr>blockedIPs := (blockedIPs tm2)(ip \<mapsto> now + blockDuration tm2)\<rparr>)
             else (True, tm2\<lparr>globalRequests := globalRequests tm2 @ [now],
                               requests := (requests tm2)(ip \<mapsto> ipRequests @ [now])\<rparr>))"

definition ThrottlingManager_recordRequest ::
  "'ip ThrottlingManager \<Rightarrow> 'ip \<Rightarrow> time \<Rightarrow> 'ip ThrottlingManager" where
  "ThrottlingManager_recordRequest tm ip now =
     tm\<lparr>globalRequests := globalRequests tm @ [now],
        requests := (requests tm)(ip \<mapsto>
          (case requests tm ip of None \<Rightarrow> [] | Some ipRequests \<Rightarrow> ipRequests) @ [now])\<rparr>"

definition ThrottlingManager_cleanup ::
  "'ip ThrottlingManager \<Rightarrow> time \<Rightarrow> 'ip ThrottlingManager" where
  "ThrottlingManager_cleanup tm now =
     tm\<lparr>globalRequests := filter (\<lambda>timestamp. now - timestamp < 1000) (globalRequests tm),
        requests := (\<lambda>ip. case requests tm ip of
            None \<Rightarrow> None
          | Some timestamps \<Rightarrow>
              let validTimestamps = filter (\<lambda>timestamp. now - timestamp < windowMs tm) timestamps
              in if validTimestamps = [] then None else Some validTimestamps),
        blockedIPs := (\<lambda>ip. case blockedIPs tm ip of
            None \<Rightarrow> None
          | Some expiry \<Rightarrow> if now > expiry then None else Some expiry)\<rparr>"

text \<open>
  The first lines of \<open>ScalableBundleEngine.addTransaction\<close>: the throttle check, which
  throws the rate-limit error when \<open>isAllowed\<close> denies, and then \<open>recordRequest\<close> for the
  same request. \<open>now\<close> and \<open>now'\<close> are the readings of the clock in the two calls. The
  result says whether the request passed (\<open>False\<close> is the thrown error).
\<close>

definition addTransaction_throttle ::
  "bool \<Rightarrow> 'ip ThrottlingManager \<Rightarrow> 'ip \<Rightarrow> time \<Rightarrow> time \<Rightarrow> bool \<times> 'ip ThrottlingManager" where
  "addTransaction_throttle enabled tm ip now now' =
     (if enabled then
        (case ThrottlingManager_isAllowed tm ip now of
           (False, tm1) \<Rightarrow> (False, tm1)
         | (True, tm1) \<Rightarrow> (True, ThrottlingManager_recordRequest tm1 ip now'))
      else (True, tm))"

text \<open>
  A burst of requests of one source: \<open>addTransaction\<close> called once for each pair of clock
  readings, in order; the results are the admissions.
\<close>

fun addTransaction_burst ::
  "'ip ThrottlingManager \<Rightarrow> 'ip \<Rightarrow> (time \<times> time) list \<Rightarrow> bool list \<times> 'ip ThrottlingManager" where
  "addTransaction_burst tm ip [] = ([], tm)"
| "addTransaction_burst tm ip ((now, now') # rest) =
     (case addTransaction_throttle True tm ip now now' of
        (ok, tm1) \<Rightarrow>
          (case addTransaction_burst tm1 ip rest of (oks, tm2) \<Rightarrow> (ok # oks, tm2)))"

definition ip_window :: "'ip ThrottlingManager \<Rightarrow> 'ip \<Rightarrow> time list" where
  "ip_window tm ip = (case requests tm ip of None \<Rightarrow> [] | Some timestamps \<Rightarrow> timestamps)"

text \<open>The manager of the repository's test of the throttling, before any request.\<close>

definition test_throttling :: "string ThrottlingManager" where
  "test_throttling = ThrottlingManager_new
     \<lparr> cfg_ENABLED = True, cfg_MAX_REQUESTS_PER_SECOND = 5, cfg_MAX_REQUESTS_PER_IP = 3,
       cfg_WINDOW_MS = 100, cfg_BLOCK_DURATION = 200 \<rparr>"

section \<open>Transactions and errors\<close>

text \<open>
  A pending transfer, the object that \<open>addTransaction\<close> builds. \<open>fromWallet\<close> and \<open>toWallet\<close>
  are the strings that \<open>toString()\<close> gives for the public keys; \<open>hasKeypair\<close> says whether
  \<open>fromKeypair\<close> is kept (it is \<open>null\<close> otherwise). One object is shared by the pending
  pool, the optimizer and the shard; it is not changed after \<open>priority\<close> is set, so the
  model stores its value in each place.
\<close>

record Transaction =
  tx_id :: string
  fromWallet :: string
  hasKeypair :: bool
  toWallet :: string
  amount :: number
  timestamp :: time
  priority :: number

datatype error =
    InvalidShardIndex int
  | TypeError

section \<open>ShardManager\<close>

text \<open>
  \<open>load\<close> is a JavaScript number that the code increments and decrements: an integer.
  SHA-256 and \<open>Number.prototype.toString\<close> belong to the platform; \<open>getShardIndex\<close> takes
  them as parameters: \<open>sha256_prefix key\<close> is the number that the first 8 hexadecimal
  digits of the digest of \<open>key\<close> denote. Reading a shard beyond the array gives
  \<open>undefined\<close>, whose field access throws \<open>TypeError\<close>.
\<close>

record Shard =
  transactions :: "Transaction list"
  load :: int

record sharding_config =
  SHARDING_ENABLED :: bool
  SHARD_COUNT :: nat
  SHARD_BY :: string
  REBALANCE_INTERVAL :: time

record ShardManager =
  shardCount :: nat
  shardBy :: string
  rebalanceInterval :: time
  shards :: "Shard list"
  lastRebalanceTime :: time

definition ShardManager_new :: "sharding_config \<Rightarrow> time \<Rightarrow> ShardManager" where
  "ShardManager_new config now =
     (let n = (if SHARD_COUNT config = 0 then 1 else SHARD_COUNT config) in
      \<lparr> shardCount = n,
        shardBy = (if SHARD_BY config = [] then ''sender'' else SHARD_BY config),
        rebalanceInterval =
          (if REBALANCE_INTERVAL config = 0 then 300000 else REBALANCE_INTERVAL config),
        shards = replicate n \<lparr> transactions = [], load = 0 \<rparr>,
        lastRebalanceTime = now \<rparr>)"

definition ShardManager_getShardIndex ::
  "(string \<Rightarrow> nat) \<Rightarrow> (number \<Rightarrow> string) \<Rightarrow> ShardManager \<Rightarrow> Transaction \<Rightarrow> nat" where
  "ShardManager_getShardIndex sha256_prefix number_toString sm transaction =
     (let key = (if shardBy sm = ''sender'' then fromWallet transaction
                 else if shardBy sm = ''receiver'' then toWallet transaction
                 else if shardBy sm = ''amount'' then number_toString (amount transaction)
                 else tx_id transaction);
          hashNum = sha256_prefix key
      in hashNum mod shardCount sm)"

definition ShardManager_assignToShard ::
  "(string \<Rightarrow> nat) \<Rightarrow> (number \<Rightarrow> string) \<Rightarrow> ShardManager \<Rightarrow> Transaction
     \<Rightarrow> error + (nat \<times> ShardManager)" where
  "ShardManager_assignToShard sha256_prefix number_toString sm transaction =
     (let shardIndex = ShardManager_getShardIndex sha256_prefix number_toString sm transaction in
      if shardCount sm = 0 \<or> shardIndex \<ge> length (shards sm) then Inl TypeError
      else
        let shard = shards sm ! shardIndex;
            shard' = shard\<lparr>transactions := transactions shard @ [transaction],
                           load := load shard + 1\<rparr>
        in Inr (shardIndex, sm\<lparr>shards := (shards sm)[shardIndex := shard']\<rparr>))"

definition ShardManager_getTransactionsFromShard ::
  "ShardManager \<Rightarrow> int \<Rightarrow> error + Transaction list" where
  "ShardManager_getTransactionsFromShard sm shardIndex =
     (if shardIndex < 0 \<or> shardIndex \<ge> int (shardCount sm) then Inl (InvalidShardIndex shardIndex)
      else if nat shardIndex \<ge> length (shards sm) then Inl TypeError
      else Inr (transactions (shards sm ! nat shardIndex)))"

definition ShardManager_removeTransactionsFromShard ::
  "ShardManager \<Rightarrow> int \<Rightarrow> string list \<Rightarrow> error + (int \<times> ShardManager)" where
  "ShardManager_removeTransactionsFromShard sm shardIndex transactionIds =
     (if shardIndex < 0 \<or> shardIndex \<ge> int (shardCount sm) then Inl (InvalidShardIndex shardIndex)
      else if nat shardIndex \<ge> length (shards sm) then Inl TypeError
      else
        let shard = shards sm ! nat shardIndex;
            initialCount = int (length (transactions shard));
            kept = filter (\<lambda>tx. tx_id tx \<notin> set transactionIds) (transactions shard);
            removedCount = initialCount - int (length kept);
            shard' = shard\<lparr>transactions := kept, load := load shard - removedCount\<rparr>
        in Inr (removedCount, sm\<lparr>shards := (shards sm)[nat shardIndex := shard']\<rparr>))"

text \<open>
  The second loop of \<open>rebalance\<close>, over the overloaded shards, with the queue of the
  underloaded ones; \<open>move_transactions\<close> is the body of the loop after \<open>toMove\<close> is found
  positive, statement by statement. The source keeps the shard objects; the model keeps
  their indices and reads the shards as they are at that point of the loop, which is
  what a reference gives. \<open>Math.floor\<close> of half an integer is \<open>div 2\<close>.
\<close>

definition move_transactions :: "nat \<Rightarrow> nat \<Rightarrow> int \<Rightarrow> Shard list \<Rightarrow> Shard list" where
  "move_transactions overIndex underIndex toMove ss =
     (let overShard = ss ! overIndex;
          transactionsToMove = take (nat toMove) (transactions overShard);
          ss1 = ss[overIndex := overShard\<lparr>transactions := drop (nat toMove) (transactions overShard)\<rparr>];
          underShard = ss1 ! underIndex;
          ss2 = ss1[underIndex := underShard\<lparr>transactions := transactions underShard @ transactionsToMove\<rparr>];
          overShard' = ss2 ! overIndex;
          ss3 = ss2[overIndex := overShard'\<lparr>load := load overShard' - toMove\<rparr>];
          underShard' = ss3 ! underIndex
      in ss3[underIndex := underShard'\<lparr>load := load underShard' + toMove\<rparr>])"

fun rebalance_loop :: "nat list \<Rightarrow> nat list \<Rightarrow> Shard list \<Rightarrow> Shard list" where
  "rebalance_loop [] underloadedShards ss = ss"
| "rebalance_loop (overIndex # rest) [] ss = ss"
| "rebalance_loop (overIndex # rest) (underIndex # underloadedShards) ss =
     (if (load (ss ! overIndex) - load (ss ! underIndex)) div 2 \<le> 0
      then rebalance_loop rest underloadedShards ss
      else rebalance_loop rest underloadedShards
             (move_transactions overIndex underIndex
                ((load (ss ! overIndex) - load (ss ! underIndex)) div 2) ss))"

text \<open>
  \<open>avgLoad * 1.2\<close> and \<open>avgLoad * 0.8\<close> are computed in doubles by the source and exactly
  here. The properties below do not depend on where the two thresholds lie.
\<close>

definition is_overloaded :: "ShardManager \<Rightarrow> nat \<Rightarrow> bool" where
  "is_overloaded sm i =
     (let totalLoad = sum_list (map load (shards sm));
          avgLoad = (of_int totalLoad :: number) / of_nat (shardCount sm)
      in of_int (load (shards sm ! i)) > avgLoad * (12 / 10))"

definition is_underloaded :: "ShardManager \<Rightarrow> nat \<Rightarrow> bool" where
  "is_underloaded sm i =
     (let totalLoad = sum_list (map load (shards sm));
          avgLoad = (of_int totalLoad :: number) / of_nat (shardCount sm)
      in \<not> is_overloaded sm i \<and> of_int (load (shards sm ! i)) < avgLoad * (8 / 10))"

definition ShardManager_rebalance :: "ShardManager \<Rightarrow> time \<Rightarrow> error + ShardManager" where
  "ShardManager_rebalance sm now =
     (if now - lastRebalanceTime sm < rebalanceInterval sm then Inr sm
      else if shardCount sm > length (shards sm) then Inl TypeError
      else
        let overloadedShards = filter (is_overloaded sm) [0..<shardCount sm];
            underloadedShards = filter (is_underloaded sm) [0..<shardCount sm]
        in Inr (sm\<lparr>lastRebalanceTime := now,
                   shards := rebalance_loop overloadedShards underloadedShards (shards sm)\<rparr>))"

definition shard_ok :: "Shard \<Rightarrow> bool" where
  "shard_ok shard = (load shard = int (length (transactions shard)))"

definition all_shard_transactions :: "ShardManager \<Rightarrow> Transaction list" where
  "all_shard_transactions sm = concat (map transactions (shards sm))"

definition ShardManager_wf :: "ShardManager \<Rightarrow> bool" where
  "ShardManager_wf sm = (0 < shardCount sm \<and> length (shards sm) = shardCount sm)"

text \<open>
  Objects of the repository's test of the sharding: a transaction of the sender that
  the test uses to unbalance the shards, and a manager of three shards in which four
  such transactions sit in shard 0.
\<close>

definition test_transaction :: "string \<Rightarrow> Transaction" where
  "test_transaction i =
     \<lparr> tx_id = i, fromWallet = ''AAAAAAAAAAAAAAAAAAAAAAAAAAAAAAAA'', hasKeypair = False,
       toWallet = ''BBBBBBBBBBBBBBBBBBBBBBBBBBBBBBBB'', amount = 1000, timestamp = 0,
       priority = 0 \<rparr>"

definition unbalanced_shards :: ShardManager where
  "unbalanced_shards =
     \<lparr> shardCount = 3, shardBy = ''sender'', rebalanceInterval = 100,
       shards = [\<lparr> transactions = map test_transaction
                      [''extra_0'', ''extra_1'', ''extra_2'', ''extra_3''], load = 4 \<rparr>,
                 \<lparr> transactions = [], load = 0 \<rparr>,
                 \<lparr> transactions = [], load = 0 \<rparr>],
       lastRebalanceTime = 0 \<rparr>"

section \<open>TransactionOptimizer\<close>

text \<open>
  \<open>transactionGroups\<close> is a \<open>Map\<close> from the sender to its transactions, in insertion order.
  \<open>Array.prototype.sort\<close> is stable, and the comparator \<open>b.priority - a.priority\<close> sorts
  by descending priority: \<open>sort_key\<close> on the negated priority. In \<open>calculatePriority\<close> the
  quotient \<open>1 / (age + 1)\<close> is \<open>Infinity\<close> when \<open>age + 1\<close> is \<open>0\<close>, and \<open>Math.min(1, Infinity)\<close> is
  \<open>1\<close>.
\<close>

record TransactionOptimizer =
  transactionGroups :: "(string \<times> Transaction list) list"
  priorityQueue :: "Transaction list"

definition TransactionOptimizer_new :: TransactionOptimizer where
  "TransactionOptimizer_new = \<lparr> transactionGroups = [], priorityQueue = [] \<rparr>"

definition TransactionOptimizer_calculatePriority :: "Transaction \<Rightarrow> time \<Rightarrow> number" where
  "TransactionOptimizer_calculatePriority transaction now =
     (let age = (of_int (now - timestamp transaction) :: number);
          amountFactor = min 1 (amount transaction / 1000000) * (7 / 10);
          ageFactor = (if age + 1 = 0 then 1 else min 1 (1 / (age + 1) * 10000)) * (3 / 10)
      in amountFactor + ageFactor)"

definition TransactionOptimizer_addTransaction ::
  "TransactionOptimizer \<Rightarrow> Transaction \<Rightarrow> time
     \<Rightarrow> number \<times> Transaction \<times> TransactionOptimizer" where
  "TransactionOptimizer_addTransaction opt transaction now =
     (let p = TransactionOptimizer_calculatePriority transaction now;
          tx = transaction\<lparr>priority := p\<rparr>;
          queue = sort_key (\<lambda>t. - priority t) (priorityQueue opt @ [tx]);
          senderKey = fromWallet tx;
          groups = (case map_of (transactionGroups opt) senderKey of
                      None \<Rightarrow> transactionGroups opt @ [(senderKey, [tx])]
                    | Some g \<Rightarrow> AList.update senderKey (g @ [tx]) (transactionGroups opt))
      in (p, tx, \<lparr> transactionGroups = groups, priorityQueue = queue \<rparr>))"

definition TransactionOptimizer_getOptimizedTransactions ::
  "TransactionOptimizer \<Rightarrow> nat \<Rightarrow> Transaction list" where
  "TransactionOptimizer_getOptimizedTransactions opt maxCount = take maxCount (priorityQueue opt)"

definition TransactionOptimizer_removeTransactions ::
  "TransactionOptimizer \<Rightarrow> string list \<Rightarrow> TransactionOptimizer" where
  "TransactionOptimizer_removeTransactions opt transactionIds =
     \<lparr> transactionGroups =
         filter (\<lambda>(sender, txs). txs \<noteq> [])
           (map (\<lambda>(sender, txs). (sender, filter (\<lambda>tx. tx_id tx \<notin> set transactionIds) txs))
              (transactionGroups opt)),
       priorityQueue = filter (\<lambda>tx. tx_id tx \<notin> set transactionIds) (priorityQueue opt) \<rparr>"

section \<open>ScalableBundleEngine: the pending pool\<close>

text \<open>
  The fields of the engine that admission and bundle execution read or write. \<open>workers\<close>
  is the number of worker threads and \<open>bundleTimer\<close> says whether the timer is armed.
  The guarded functions of the engine run under \<open>ReentrancyGuard.executeWithGuard\<close>; the
  definitions here are their bodies. Submitting a transaction (\<open>createAndSendTransaction\<close>)
  is the ledger's part: \<open>send\<close> gives the signature, or \<open>None\<close> where the source throws.
\<close>

definition BUNDLE_SIZE :: nat where
  "BUNDLE_SIZE = 10"

record ExecutedBundle =
  bundle_id :: string
  signature :: string
  executed_at :: time
  bundle_transactions :: "Transaction list"

record bundle_result =
  bundleId :: string
  transactionCount :: nat

record Engine =
  pendingTransactions :: "Transaction list"
  executedBundles :: "ExecutedBundle list"
  bundleInProgress :: bool
  workers :: nat
  bundleTimer :: bool
  sharding_enabled :: bool
  shardManager :: ShardManager
  transactionOptimizer :: TransactionOptimizer

definition Engine_new :: "sharding_config \<Rightarrow> nat \<Rightarrow> time \<Rightarrow> Engine" where
  "Engine_new sharding workerCount now =
     \<lparr> pendingTransactions = [],
       executedBundles = [],
       bundleInProgress = False,
       workers = workerCount,
       bundleTimer = False,
       sharding_enabled = SHARDING_ENABLED sharding,
       shardManager = ShardManager_new sharding now,
       transactionOptimizer = TransactionOptimizer_new \<rparr>"

text \<open>
  The three insertions of \<open>addTransaction\<close>, for the transaction object it has built
  after its validation: into the optimizer, into the shard and into the pending pool.
  The result is the priority, the shard index and the engine.
\<close>

definition addTransaction_enqueue ::
  "(string \<Rightarrow> nat) \<Rightarrow> (number \<Rightarrow> string) \<Rightarrow> Engine \<Rightarrow> Transaction \<Rightarrow> time
     \<Rightarrow> error + (number \<times> nat \<times> Engine)" where
  "addTransaction_enqueue sha256_prefix number_toString e transaction now =
     (case TransactionOptimizer_addTransaction (transactionOptimizer e) transaction now of
        (p, tx, opt) \<Rightarrow>
          if sharding_enabled e then
            (case ShardManager_assignToShard sha256_prefix number_toString (shardManager e) tx of
               Inl err \<Rightarrow> Inl err
             | Inr (shardIndex, sm) \<Rightarrow>
                 Inr (p, shardIndex,
                      e\<lparr>transactionOptimizer := opt, shardManager := sm,
                        pendingTransactions := pendingTransactions e @ [tx]\<rparr>))
          else
            Inr (p, 0, e\<lparr>transactionOptimizer := opt,
                         pendingTransactions := pendingTransactions e @ [tx]\<rparr>))"

fun executeTransactionsSync ::
  "(Transaction \<Rightarrow> string option) \<Rightarrow> time \<Rightarrow> string \<Rightarrow> Transaction list
     \<Rightarrow> ExecutedBundle list \<Rightarrow> ExecutedBundle list" where
  "executeTransactionsSync send now bid [] acc = acc"
| "executeTransactionsSync send now bid (transaction # rest) acc =
     (case send transaction of
        Some sig \<Rightarrow>
          executeTransactionsSync send now bid rest
            (acc @ [\<lparr> bundle_id = bid, signature = sig, executed_at = now,
                       bundle_transactions = [transaction] \<rparr>])
      | None \<Rightarrow> executeTransactionsSync send now bid rest acc)"

text \<open>
  \<open>distributeTransactionsToWorkers\<close>: the loop over the workers splices the chunks off
  the array it was given. The result is the messages posted (worker index and chunk) and
  what is left of the array.
\<close>

fun distribute_loop ::
  "nat list \<Rightarrow> nat \<Rightarrow> Transaction list \<Rightarrow> (nat \<times> Transaction list) list \<times> Transaction list" where
  "distribute_loop [] transactionsPerWorker txs = ([], txs)"
| "distribute_loop (i # others) transactionsPerWorker txs =
     (if txs = [] then ([], txs)
      else
        (case distribute_loop others transactionsPerWorker (drop transactionsPerWorker txs) of
           (posted, left) \<Rightarrow>
             ((if take transactionsPerWorker txs \<noteq> []
               then [(i, take transactionsPerWorker txs)] else []) @ posted,
              left)))"

definition distributeTransactionsToWorkers ::
  "nat \<Rightarrow> Transaction list \<Rightarrow> (nat \<times> Transaction list) list \<times> Transaction list" where
  "distributeTransactionsToWorkers workerCount txs =
     distribute_loop [0..<workerCount] ((length txs + workerCount - 1) div workerCount) txs"

definition transactionsToExecute :: "Engine \<Rightarrow> Transaction list" where
  "transactionsToExecute e =
     TransactionOptimizer_getOptimizedTransactions (transactionOptimizer e)
       (min (length (pendingTransactions e)) BUNDLE_SIZE)"

text \<open>
  The body of \<open>executeBundleTransactions\<close>. The result is what the function returns
  (\<open>None\<close> for the bare \<open>return\<close>), the messages posted to the workers and the engine.
  The selection and the removals come before the first \<open>await\<close>, so nothing runs in
  between them. \<open>bundleId\<close> is the random identifier.
\<close>

definition executeBundleTransactions ::
  "string \<Rightarrow> (Transaction \<Rightarrow> string option) \<Rightarrow> time \<Rightarrow> Engine
     \<Rightarrow> bundle_result option \<times> (nat \<times> Transaction list) list \<times> Engine" where
  "executeBundleTransactions bid send now e =
     (if pendingTransactions e = [] \<or> bundleInProgress e then (None, [], e)
      else
        let selected = transactionsToExecute e;
            transactionIds = map tx_id selected;
            e1 = e\<lparr>bundleInProgress := True,
                   bundleTimer := False,
                   transactionOptimizer :=
                     TransactionOptimizer_removeTransactions (transactionOptimizer e) transactionIds,
                   pendingTransactions :=
                     filter (\<lambda>tx. tx_id tx \<notin> set transactionIds) (pendingTransactions e)\<rparr>
        in if workers e = 0 then
             (Some \<lparr> bundleId = bid, transactionCount = length selected \<rparr>, [],
              e1\<lparr>executedBundles := executeTransactionsSync send now bid selected (executedBundles e1),
                 bundleInProgress := False\<rparr>)
           else
             (case distributeTransactionsToWorkers (workers e) selected of
                (posted, left) \<Rightarrow>
                  (Some \<lparr> bundleId = bid, transactionCount = length left \<rparr>, posted,
                   e1\<lparr>bundleInProgress := False\<rparr>)))"

definition engine_after_execute ::
  "string \<Rightarrow> (Transaction \<Rightarrow> string option) \<Rightarrow> time \<Rightarrow> Engine \<Rightarrow> Engine" where
  "engine_after_execute bid send now e = snd (snd (executeBundleTransactions bid send now e))"

text \<open>
  The state that the pending indexes have between guarded operations: the identifiers
  of the pending transfers differ, and the priority queue holds the pending pool.
\<close>

definition pending_consistent :: "Engine \<Rightarrow> bool" where
  "pending_consistent e =
     (distinct (map tx_id (pendingTransactions e))
      \<and> mset (priorityQueue (transactionOptimizer e)) = mset (pendingTransactions e))"

text \<open>
  Objects for the evaluation of the engine: the sharding of the repository's test, and
  an engine without workers after the admission of a small and then of a large transfer
  of one sender.
\<close>

definition test_sharding_config :: sharding_config where
  "test_sharding_config =
     \<lparr> SHARDING_ENABLED = True, SHARD_COUNT = 3, SHARD_BY = ''sender'',
       REBALANCE_INTERVAL = 100 \<rparr>"

definition two_pending :: Engine where
  "two_pending =
     (case addTransaction_enqueue (\<lambda>key. 0) (\<lambda>n. ''10'') (Engine_new test_sharding_config 0 0)
             ((test_transaction ''small'')\<lparr>amount := 10\<rparr>) 0 of
        Inl err \<Rightarrow> Engine_new test_sharding_config 0 0
      | Inr (p, shardIndex, e1) \<Rightarrow>
          (case addTransaction_enqueue (\<lambda>key. 0) (\<lambda>n. ''1000000'') e1
                  ((test_transaction ''large'')\<lparr>amount := 1000000\<rparr>) 0 of
             Inl err \<Rightarrow> e1
           | Inr (p', shardIndex', e2) \<Rightarrow> e2))"

section \<open>ReentrancyGuard\<close>

text \<open>
  \<open>executeWithGuard\<close> is an \<open>async\<close> function with one \<open>await\<close>, that of the guarded
  function. JavaScript runs a function without interruption up to its \<open>await\<close>, so the
  function is two atomic pieces: \<open>executeWithGuard_enter\<close>, from the call to the point
  where the guarded function has been started or the call has been queued, and
  \<open>executeWithGuard_exit\<close>, from the settling of the guarded function onwards: the log
  entry, the \<open>finally\<close> block with \<open>_unlock\<close> and \<open>_processPendingOperations\<close>, which itself
  runs, without interruption, up to the start of the next queued function. The type
  \<open>'f\<close> is that of the queued entries (the function with its context, arguments and
  promise callbacks); the log keeps the operation and the status of each entry, not its
  details, and \<open>slice(-maxLogSize)\<close> keeps its last \<open>maxLogSize\<close> entries (all of them
  when \<open>maxLogSize\<close> is \<open>0\<close>). An operation identifier is a string, and the empty
  string is refused.
\<close>

datatype log_status = reentrancy_attempt | start | complete | failed

datatype guard_error = InvalidOperationId

datatype 'f outcome = Started 'f | Queued

record 'f ReentrancyGuard =
  locks :: "string \<rightharpoonup> bool"
  pendingOperations :: "string \<rightharpoonup> 'f list"
  operationLog :: "(string \<times> log_status) list"
  maxLogSize :: nat

definition ReentrancyGuard_new :: "'f ReentrancyGuard" where
  "ReentrancyGuard_new =
     \<lparr> locks = Map.empty, pendingOperations = Map.empty, operationLog = [], maxLogSize = 1000 \<rparr>"

definition ReentrancyGuard_isLocked :: "'f ReentrancyGuard \<Rightarrow> string \<Rightarrow> bool" where
  "ReentrancyGuard_isLocked g operationId =
     (case locks g operationId of None \<Rightarrow> False | Some locked \<Rightarrow> locked)"

definition ReentrancyGuard_lock :: "'f ReentrancyGuard \<Rightarrow> string \<Rightarrow> 'f ReentrancyGuard" where
  "ReentrancyGuard_lock g operationId = g\<lparr>locks := (locks g)(operationId \<mapsto> True)\<rparr>"

definition ReentrancyGuard_unlock :: "'f ReentrancyGuard \<Rightarrow> string \<Rightarrow> 'f ReentrancyGuard" where
  "ReentrancyGuard_unlock g operationId = g\<lparr>locks := (locks g)(operationId \<mapsto> False)\<rparr>"

definition ReentrancyGuard_logOperation ::
  "'f ReentrancyGuard \<Rightarrow> string \<Rightarrow> log_status \<Rightarrow> 'f ReentrancyGuard" where
  "ReentrancyGuard_logOperation g operationId status =
     (let entries = operationLog g @ [(operationId, status)] in
      g\<lparr>operationLog :=
          (if length entries > maxLogSize g \<and> maxLogSize g \<noteq> 0
           then drop (length entries - maxLogSize g) entries else entries)\<rparr>)"

definition ReentrancyGuard_addToPendingQueue ::
  "'f ReentrancyGuard \<Rightarrow> string \<Rightarrow> 'f \<Rightarrow> 'f ReentrancyGuard" where
  "ReentrancyGuard_addToPendingQueue g operationId entry =
     g\<lparr>pendingOperations := (pendingOperations g)(operationId \<mapsto>
         (case pendingOperations g operationId of None \<Rightarrow> [] | Some pendingOps \<Rightarrow> pendingOps)
         @ [entry])\<rparr>"

definition executeWithGuard_enter ::
  "'f ReentrancyGuard \<Rightarrow> string \<Rightarrow> 'f \<Rightarrow> guard_error + ('f outcome \<times> 'f ReentrancyGuard)" where
  "executeWithGuard_enter g operationId fn =
     (if operationId = [] then Inl InvalidOperationId
      else if ReentrancyGuard_isLocked g operationId then
        Inr (Queued,
             ReentrancyGuard_addToPendingQueue
               (ReentrancyGuard_logOperation g operationId reentrancy_attempt) operationId fn)
      else
        Inr (Started fn,
             ReentrancyGuard_logOperation (ReentrancyGuard_lock g operationId) operationId start))"

definition ReentrancyGuard_processPendingOperations ::
  "'f ReentrancyGuard \<Rightarrow> string \<Rightarrow> 'f option \<times> 'f ReentrancyGuard" where
  "ReentrancyGuard_processPendingOperations g operationId =
     (case pendingOperations g operationId of
        None \<Rightarrow> (None, g)
      | Some [] \<Rightarrow> (None, g)
      | Some (nextOp # pendingOps) \<Rightarrow>
          let g1 = g\<lparr>pendingOperations :=
                       (if pendingOps = [] then (pendingOperations g)(operationId := None)
                        else (pendingOperations g)(operationId \<mapsto> pendingOps))\<rparr>
          in (case executeWithGuard_enter g1 operationId nextOp of
                Inl err \<Rightarrow> (None, g1)
              | Inr (Queued, g2) \<Rightarrow> (None, g2)
              | Inr (Started fn, g2) \<Rightarrow> (Some fn, g2)))"

definition executeWithGuard_exit ::
  "'f ReentrancyGuard \<Rightarrow> string \<Rightarrow> bool \<Rightarrow> 'f option \<times> 'f ReentrancyGuard" where
  "executeWithGuard_exit g operationId success =
     ReentrancyGuard_processPendingOperations
       (ReentrancyGuard_unlock
          (ReentrancyGuard_logOperation g operationId (if success then complete else failed))
          operationId)
       operationId"

definition waiting :: "'f ReentrancyGuard \<Rightarrow> string \<Rightarrow> 'f list" where
  "waiting g operationId =
     (case pendingOperations g operationId of None \<Rightarrow> [] | Some pendingOps \<Rightarrow> pendingOps)"

text \<open>
  The guard among its callers. The activations of \<open>executeWithGuard\<close> that wait for their
  guarded function are \<open>running\<close>, oldest first, each with its operation identifier.
  Two things can happen: somebody calls \<open>executeWithGuard\<close> (\<open>Call\<close>), or the guarded
  function of the activation at some position of \<open>running\<close> settles, with success or
  with an error (\<open>Settle\<close>). \<open>history\<close> records the starts and ends of the guarded
  functions in the order in which they happen.
\<close>

datatype 'f event = Call string 'f | Settle nat bool

datatype 'f observation = Begin string 'f | End string 'f

record 'f guarded_system =
  guard :: "'f ReentrancyGuard"
  running :: "(string \<times> 'f) list"
  history :: "'f observation list"

definition initial_system :: "'f guarded_system" where
  "initial_system = \<lparr> guard = ReentrancyGuard_new, running = [], history = [] \<rparr>"

definition remove_nth :: "nat \<Rightarrow> 'a list \<Rightarrow> 'a list" where
  "remove_nth i xs = take i xs @ drop (Suc i) xs"

fun step :: "'f event \<Rightarrow> 'f guarded_system \<Rightarrow> 'f guarded_system" where
  "step (Call operationId fn) s =
     (case executeWithGuard_enter (guard s) operationId fn of
        Inl err \<Rightarrow> s
      | Inr (Queued, g) \<Rightarrow> s\<lparr>guard := g\<rparr>
      | Inr (Started f, g) \<Rightarrow>
          s\<lparr>guard := g, running := running s @ [(operationId, f)],
            history := history s @ [Begin operationId f]\<rparr>)"
| "step (Settle i success) s =
     (if i < length (running s) then
        (case running s ! i of
           (operationId, f) \<Rightarrow>
             (case executeWithGuard_exit (guard s) operationId success of
                (None, g) \<Rightarrow>
                  s\<lparr>guard := g, running := remove_nth i (running s),
                    history := history s @ [End operationId f]\<rparr>
              | (Some next, g) \<Rightarrow>
                  s\<lparr>guard := g, running := remove_nth i (running s) @ [(operationId, next)],
                    history := history s @ [End operationId f, Begin operationId next]\<rparr>))
      else s)"

definition run :: "'f event list \<Rightarrow> 'f guarded_system" where
  "run events = foldl (\<lambda>s ev. step ev s) initial_system events"

fun calls :: "string \<Rightarrow> 'f event list \<Rightarrow> 'f list" where
  "calls k [] = []"
| "calls k (Call operationId fn # events) =
     (if operationId = k then fn # calls k events else calls k events)"
| "calls k (Settle i success # events) = calls k events"

fun begun :: "string \<Rightarrow> 'f observation list \<Rightarrow> 'f list" where
  "begun k [] = []"
| "begun k (Begin operationId f # h) = (if operationId = k then f # begun k h else begun k h)"
| "begun k (End operationId f # h) = begun k h"

fun ended :: "string \<Rightarrow> 'f observation list \<Rightarrow> 'f list" where
  "ended k [] = []"
| "ended k (Begin operationId f # h) = ended k h"
| "ended k (End operationId f # h) = (if operationId = k then f # ended k h else ended k h)"

definition running_under :: "string \<Rightarrow> 'f guarded_system \<Rightarrow> 'f list" where
  "running_under k s = map snd (filter (\<lambda>p. fst p = k) (running s))"

text \<open>
  \<open>sequential k cur h\<close> reads the history \<open>h\<close> for the executions under \<open>k\<close>, \<open>cur\<close> being
  the execution that is open: a \<open>Begin\<close> is in order when none is open, an \<open>End\<close> when it
  ends the open one. The result is the execution open at the end, or \<open>None\<close> when two
  executions overlap.
\<close>

fun sequential :: "string \<Rightarrow> 'f option \<Rightarrow> 'f observation list \<Rightarrow> 'f option option" where
  "sequential k cur [] = Some cur"
| "sequential k cur (Begin operationId f # h) =
     (if operationId = k
      then (case cur of None \<Rightarrow> sequential k (Some f) h | Some f' \<Rightarrow> None)
      else sequential k cur h)"
| "sequential k cur (End operationId f # h) =
     (if operationId = k
      then (case cur of None \<Rightarrow> None
            | Some f' \<Rightarrow> if f' = f then sequential k None h else None)
      else sequential k cur h)"

text \<open>
  What holds of the operations under one identifier \<open>k\<close> between events, \<open>cs\<close> being the
  functions passed to \<open>executeWithGuard\<close> under \<open>k\<close> so far, in the order of the calls.
\<close>

definition key_inv :: "string \<Rightarrow> 'f guarded_system \<Rightarrow> 'f list \<Rightarrow> bool" where
  "key_inv k s cs =
     ((ReentrancyGuard_isLocked (guard s) k \<longleftrightarrow> running_under k s \<noteq> [])
      \<and> length (running_under k s) \<le> 1
      \<and> (\<not> ReentrancyGuard_isLocked (guard s) k \<longrightarrow> waiting (guard s) k = [])
      \<and> begun k (history s) @ waiting (guard s) k = cs
      \<and> ended k (history s) @ running_under k s = begun k (history s)
      \<and> sequential k None (history s) =
          Some (case running_under k s of [] \<Rightarrow> None | f # fs \<Rightarrow> Some f))"

section \<open>SafeMath: properties\<close>

lemma SafeMath_add_nonneg: "0 \<le> a \<Longrightarrow> 0 \<le> b \<Longrightarrow> SafeMath_add a b = a + b"
  by (simp add: SafeMath_add_def Let_def)

text \<open>
  C5. The claim is that \<open>add\<close> saturates: \<open>add(MAX_SAFE, 1) == MAX_SAFE\<close>, and no sum of
  non-negative numbers exceeds \<open>Number.MAX_SAFE_INTEGER\<close>. The code does not: the test
  \<open>result < a || result < b\<close> is never true of non-negative operands, so the sum is
  returned as it is. At \<open>MAX_SAFE_INTEGER\<close> and \<open>1\<close> the sum is \<open>2^53\<close>, a double, one
  above the bound.
\<close>

theorem SafeMath_add_max_safe_one:
  "SafeMath_add MAX_SAFE_INTEGER 1 = 9007199254740992
   \<and> SafeMath_add MAX_SAFE_INTEGER 1 > MAX_SAFE_INTEGER"
  by (simp add: SafeMath_add_def MAX_SAFE_INTEGER_def Let_def)

text \<open>
  C8. \<open>subtract(a, b)\<close> is \<open>0\<close> whenever \<open>b > a\<close> and is never negative;
  \<open>divide(a, 0)\<close> is \<open>0\<close> for every \<open>a\<close>; in particular \<open>subtract(3, 5) = 0\<close> and
  \<open>divide(5, 0) = 0\<close>. Neither function has a branch that throws.
\<close>

theorem SafeMath_subtract_divide_saturate:
  "(b > a \<longrightarrow> SafeMath_subtract a b = 0)
   \<and> 0 \<le> SafeMath_subtract a b
   \<and> SafeMath_divide a 0 = 0
   \<and> SafeMath_subtract 3 5 = 0
   \<and> SafeMath_divide 5 0 = 0"
  by (simp add: SafeMath_subtract_def SafeMath_divide_def)

theorem SafeMath_subtract_divide_saturate_witness:
  "(5::number) > 3 \<and> SafeMath_subtract 3 5 = 0 \<and> SafeMath_divide 3 0 = 0"
  using SafeMath_subtract_divide_saturate [of 3 5] by simp

section \<open>CacheManager: properties\<close>

lemma length_update_fresh:
  "key \<notin> fst ` set al \<Longrightarrow> length (AList.update key e al) = Suc (length al)"
  by (induct al) auto

lemma CacheManager_set_at_capacity:
  assumes "length (cache c) = maxSize c"
    and "key \<notin> fst ` set (cache c)"
    and "list_all (\<lambda>(k, item). \<not> now > expiresAt item) (cache c)"
  shows "cache_size (CacheManager_set c key v ttl_arg now) = maxSize c + 1"
proof -
  have live: "filter (\<lambda>(k, item). \<not> now > expiresAt item) (cache c) = cache c"
    using assms(3) by (simp add: list_all_iff)
  have "length (AList.update key e (cache c)) = Suc (length (cache c))" for e
    using assms(2) length_update_fresh by fastforce
  then show ?thesis
    using assms(1) live
    by (simp add: cache_size_def CacheManager_set_def CacheManager_prune_def Let_def)
qed

text \<open>
  C6. The claim is that the cache never holds more than \<open>MAX_SIZE\<close> entries. The code
  lets it hold \<open>MAX_SIZE + 1\<close>: \<open>set\<close> calls \<open>prune(true)\<close> when the size is \<open>MAX_SIZE\<close>, but
  \<open>prune\<close> evicts by access time only when the size is strictly above \<open>MAX_SIZE\<close>, and the
  new entry is inserted afterwards. With \<open>MAX_SIZE = 3\<close>, four \<open>set\<close> calls with distinct
  keys and no expired entry leave four entries.
\<close>

theorem CacheManager_set_exceeds_max_size:
  "cache_size
     (CacheManager_set (CacheManager_set (CacheManager_set (CacheManager_set
        (CacheManager_new \<lparr>cfg_TTL = 100, cfg_MAX_SIZE = 3, cfg_PRUNE_INTERVAL = 50\<rparr> 0)
        ''key1'' ''value1'' None 0) ''key2'' ''value2'' None 0)
        ''key3'' ''value3'' None 0) ''key4'' ''value4'' None 0) = 4
   \<and> maxSize (CacheManager_new \<lparr>cfg_TTL = 100, cfg_MAX_SIZE = 3, cfg_PRUNE_INTERVAL = 50\<rparr> 0
        :: (string, string) CacheManager) = 3"
  by (simp add: cache_size_def CacheManager_set_def CacheManager_new_def
      CacheManager_prune_def Let_def)

text \<open>
  C7. \<open>get\<close> never returns a value past its expiry. For every cache and key: when the
  entry's \<open>expiresAt\<close> is before \<open>now\<close>, \<open>get\<close> returns absent and the entry is gone
  afterwards; when \<open>now\<close> is not after \<open>expiresAt\<close>, \<open>get\<close> returns the stored value; a
  value that \<open>get\<close> returns is that of an entry not yet expired. After \<open>set(k, v, ttl)\<close> at
  \<open>t0\<close>, \<open>get(k)\<close> at \<open>t\<close> returns \<open>v\<close> exactly when \<open>t\<close> is at most \<open>t0\<close> plus the
  effective TTL; after \<open>set(k, v, 50)\<close>, an immediate \<open>get(k)\<close> returns \<open>v\<close> and a \<open>get(k)\<close>
  60 ms later returns absent.
\<close>

theorem CacheManager_get_respects_expiry:
  "(map_of (cache c) k = Some item \<and> now > expiresAt item \<longrightarrow>
      fst (CacheManager_get c k now) = None
      \<and> map_of (cache (snd (CacheManager_get c k now))) k = None)
   \<and> (map_of (cache c) k = Some item \<and> now \<le> expiresAt item \<longrightarrow>
      fst (CacheManager_get c k now) = Some (entry_value item))
   \<and> (fst (CacheManager_get c k now) = Some v \<longrightarrow>
      (\<exists>item'. map_of (cache c) k = Some item' \<and> entry_value item' = v
         \<and> now \<le> expiresAt item'))
   \<and> fst (CacheManager_get (CacheManager_set c k v ttl_arg t0) k t) =
      (if t > t0 + (case ttl_arg of None \<Rightarrow> ttl c | Some d \<Rightarrow> if d = 0 then ttl c else d)
       then None else Some v)
   \<and> (let c1 = CacheManager_set c k v (Some 50) t0;
           (r1, c2) = CacheManager_get c1 k t0;
           (r2, c3) = CacheManager_get c2 k (t0 + 60)
       in r1 = Some v \<and> r2 = None)"
proof -
  have expired: "map_of (cache c) k = Some item \<and> now > expiresAt item \<longrightarrow>
      fst (CacheManager_get c k now) = None
      \<and> map_of (cache (snd (CacheManager_get c k now))) k = None"
    by (simp add: CacheManager_get_def AList.delete_conv')
  have fresh: "map_of (cache c) k = Some item \<and> now \<le> expiresAt item \<longrightarrow>
      fst (CacheManager_get c k now) = Some (entry_value item)"
    by (simp add: CacheManager_get_def)
  have only_fresh: "fst (CacheManager_get c k now) = Some v \<longrightarrow>
      (\<exists>item'. map_of (cache c) k = Some item' \<and> entry_value item' = v
         \<and> now \<le> expiresAt item')"
    by (auto simp: CacheManager_get_def split: option.splits if_splits)
  have set_get: "fst (CacheManager_get (CacheManager_set c k v ttl_arg t0) k t) =
      (if t > t0 + (case ttl_arg of None \<Rightarrow> ttl c | Some d \<Rightarrow> if d = 0 then ttl c else d)
       then None else Some v)"
    by (simp add: CacheManager_get_def CacheManager_set_def CacheManager_prune_def Let_def
        AList.update_conv' split: option.splits)
  have example: "(let c1 = CacheManager_set c k v (Some 50) t0;
           (r1, c2) = CacheManager_get c1 k t0;
           (r2, c3) = CacheManager_get c2 k (t0 + 60)
       in r1 = Some v \<and> r2 = None)"
    by (simp add: CacheManager_get_def CacheManager_set_def CacheManager_prune_def Let_def
        AList.update_conv' split: option.splits)
  from expired fresh only_fresh set_get example show ?thesis by blast
qed

theorem CacheManager_get_respects_expiry_witness:
  "map_of (cache (CacheManager_set
        (CacheManager_new \<lparr>cfg_TTL = 100, cfg_MAX_SIZE = 3, cfg_PRUNE_INTERVAL = 50\<rparr> 0)
        ''key2'' ''value2'' (Some 50) 0)) ''key2''
     = Some \<lparr>entry_value = ''value2'', expiresAt = 50, lastAccessed = 0\<rparr>
   \<and> (60::time) > expiresAt \<lparr>entry_value = ''value2'', expiresAt = 50, lastAccessed = 0\<rparr>
   \<and> fst (CacheManager_get (CacheManager_set
        (CacheManager_new \<lparr>cfg_TTL = 100, cfg_MAX_SIZE = 3, cfg_PRUNE_INTERVAL = 50\<rparr> 0)
        ''key2'' ''value2'' (Some 50) 0) ''key2'' 60) = None
   \<and> (10::time) \<le> expiresAt \<lparr>entry_value = ''value2'', expiresAt = 50, lastAccessed = 0\<rparr>
   \<and> fst (CacheManager_get (CacheManager_set
        (CacheManager_new \<lparr>cfg_TTL = 100, cfg_MAX_SIZE = 3, cfg_PRUNE_INTERVAL = 50\<rparr> 0)
        ''key2'' ''value2'' (Some 50) 0) ''key2'' 10) = Some ''value2''"
proof -
  let ?c = "CacheManager_set
        (CacheManager_new \<lparr>cfg_TTL = 100, cfg_MAX_SIZE = 3, cfg_PRUNE_INTERVAL = 50\<rparr> 0)
        ''key2'' ''value2'' (Some 50) 0 :: (string, string) CacheManager"
  let ?item = "\<lparr>entry_value = ''value2'', expiresAt = 50, lastAccessed = 0\<rparr> :: string CacheEntry"
  have m: "map_of (cache ?c) ''key2'' = Some ?item"
    by (simp add: CacheManager_set_def CacheManager_new_def Let_def)
  have e: "(60::time) > expiresAt ?item" and f: "(10::time) \<le> expiresAt ?item"
    by simp_all
  from m e CacheManager_get_respects_expiry [of ?c "''key2''" ?item 60]
  have r1: "fst (CacheManager_get ?c ''key2'' 60) = None" by blast
  from m f CacheManager_get_respects_expiry [of ?c "''key2''" ?item 10]
  have r2: "fst (CacheManager_get ?c ''key2'' 10) = Some (entry_value ?item)" by blast
  from m e f r1 r2 show ?thesis by simp
qed

section \<open>ThrottlingManager: properties\<close>

text \<open>The four ways through \<open>isAllowed\<close>, each with the manager it leaves.\<close>

lemma isAllowed_blocked:
  "still_blocked tm ip now \<Longrightarrow> ThrottlingManager_isAllowed tm ip now = (False, tm)"
  by (simp add: ThrottlingManager_isAllowed_def)

lemma isAllowed_admit:
  assumes "\<not> still_blocked tm ip now"
    and "length (filter (\<lambda>timestamp. now - timestamp < 1000) (globalRequests tm)) < maxRequestsPerSecond tm"
    and "length (filter (\<lambda>timestamp. now - timestamp < windowMs tm) (ip_window tm ip)) < maxRequestsPerIP tm"
  shows "ThrottlingManager_isAllowed tm ip now =
     (True, tm\<lparr>blockedIPs := (blockedIPs tm)(ip := None),
               globalRequests := filter (\<lambda>timestamp. now - timestamp < 1000) (globalRequests tm) @ [now],
               requests := (requests tm)(ip \<mapsto>
                  filter (\<lambda>timestamp. now - timestamp < windowMs tm) (ip_window tm ip) @ [now])\<rparr>)"
  using assms
  by (simp add: ThrottlingManager_isAllowed_def ip_window_def Let_def split: option.splits)

lemma isAllowed_exceeded:
  assumes "\<not> still_blocked tm ip now"
    and "length (filter (\<lambda>timestamp. now - timestamp < 1000) (globalRequests tm)) < maxRequestsPerSecond tm"
    and "length (filter (\<lambda>timestamp. now - timestamp < windowMs tm) (ip_window tm ip)) \<ge> maxRequestsPerIP tm"
  shows "ThrottlingManager_isAllowed tm ip now =
     (False, tm\<lparr>blockedIPs := (blockedIPs tm)(ip \<mapsto> now + blockDuration tm),
               globalRequests := filter (\<lambda>timestamp. now - timestamp < 1000) (globalRequests tm),
               requests := (requests tm)(ip \<mapsto> ip_window tm ip)\<rparr>)"
  using assms
  by (auto simp add: ThrottlingManager_isAllowed_def ip_window_def Let_def fun_upd_idem split: option.splits)

lemma isAllowed_global_denied:
  assumes "\<not> still_blocked tm ip now"
    and "length (filter (\<lambda>timestamp. now - timestamp < 1000) (globalRequests tm)) \<ge> maxRequestsPerSecond tm"
  shows "ThrottlingManager_isAllowed tm ip now =
     (False, tm\<lparr>blockedIPs := (blockedIPs tm)(ip := None),
               globalRequests := filter (\<lambda>timestamp. now - timestamp < 1000) (globalRequests tm)\<rparr>)"
  using assms
  by (simp add: ThrottlingManager_isAllowed_def Let_def)


lemma length_filter_bound: "length xs \<le> n \<Longrightarrow> length (filter P xs) \<le> n"
  by (rule order_trans [OF length_filter_le])

lemma length_filter_less: "length xs < n \<Longrightarrow> length (filter P xs) < n"
  by (rule le_less_trans [OF length_filter_le])

text \<open>
  C4. The claim is that, with \<open>MAX_REQUESTS_PER_IP = 3\<close>, four rapid \<open>isAllowed\<close> calls of
  one source give allowed, allowed, allowed, denied, that the fourth blocks the source
  for \<open>BLOCK_DURATION\<close>, and that after the block a call is allowed again. As worded it
  fails at configurations the constructor accepts. With a block shorter than the window
  (\<open>BLOCK_DURATION = 1000\<close>, \<open>WINDOW_MS = 60000\<close>) the call at the expiry of the block still
  finds three timestamps in the window: it is denied and the source is blocked again.
  With \<open>MAX_REQUESTS_PER_SECOND = 3\<close> the fourth call is denied by the global check,
  which comes first, and no block is set.
\<close>

theorem ThrottlingManager_rate_limit_boundary_counterexample:
  "(let tm = ThrottlingManager_new
              \<lparr> cfg_ENABLED = True, cfg_MAX_REQUESTS_PER_SECOND = 100,
                cfg_MAX_REQUESTS_PER_IP = 3, cfg_WINDOW_MS = 60000,
                cfg_BLOCK_DURATION = 1000 \<rparr> :: string ThrottlingManager;
        (r1, s1) = ThrottlingManager_isAllowed tm ''127.0.0.1'' 0;
        (r2, s2) = ThrottlingManager_isAllowed s1 ''127.0.0.1'' 0;
        (r3, s3) = ThrottlingManager_isAllowed s2 ''127.0.0.1'' 0;
        (r4, s4) = ThrottlingManager_isAllowed s3 ''127.0.0.1'' 0;
        (r5, s5) = ThrottlingManager_isAllowed s4 ''127.0.0.1'' 1000
    in r1 \<and> r2 \<and> r3 \<and> \<not> r4 \<and> blockedIPs s4 ''127.0.0.1'' = Some 1000
       \<and> \<not> r5 \<and> blockedIPs s5 ''127.0.0.1'' = Some 2000)
   \<and> (let tm = ThrottlingManager_new
              \<lparr> cfg_ENABLED = True, cfg_MAX_REQUESTS_PER_SECOND = 3,
                cfg_MAX_REQUESTS_PER_IP = 3, cfg_WINDOW_MS = 60000,
                cfg_BLOCK_DURATION = 300000 \<rparr> :: string ThrottlingManager;
        (r1, s1) = ThrottlingManager_isAllowed tm ''127.0.0.1'' 0;
        (r2, s2) = ThrottlingManager_isAllowed s1 ''127.0.0.1'' 0;
        (r3, s3) = ThrottlingManager_isAllowed s2 ''127.0.0.1'' 0;
        (r4, s4) = ThrottlingManager_isAllowed s3 ''127.0.0.1'' 0
    in r1 \<and> r2 \<and> r3 \<and> \<not> r4 \<and> blockedIPs s4 ''127.0.0.1'' = None)"
  by (simp add: ThrottlingManager_new_def ThrottlingManager_isAllowed_def still_blocked_def
      Let_def)

text \<open>
  C4, amended. With \<open>MAX_REQUESTS_PER_IP = 3\<close> and a global quota with room for four more
  timestamps, a source with no recorded request and no block calls \<open>isAllowed\<close> four
  times within the window: calls 1 to 3 are allowed, call 4 is denied and blocks the
  source until \<open>t4 + BLOCK_DURATION\<close>. While the block lasts every \<open>isAllowed\<close> of the
  source returns \<open>false\<close> and leaves the manager as it is (no timestamp is appended). From
  the expiry on, a call is allowed exactly when the first of the three timestamps has
  left the window; a call before that is denied and blocks the source again. So the call
  after the block is always allowed when \<open>BLOCK_DURATION\<close> is at least \<open>WINDOW_MS\<close>, as it
  is by default.
\<close>

theorem ThrottlingManager_rate_limit_boundary:
  assumes quota: "maxRequestsPerIP tm = 3"
    and fresh: "ip_window tm ip = []" "blockedIPs tm ip = None"
    and global: "length (globalRequests tm) + 4 \<le> maxRequestsPerSecond tm"
    and rapid: "t1 \<le> t2" "t2 \<le> t3" "t3 \<le> t4" "t4 - t1 < windowMs tm"
  shows "let (r1, s1) = ThrottlingManager_isAllowed tm ip t1;
             (r2, s2) = ThrottlingManager_isAllowed s1 ip t2;
             (r3, s3) = ThrottlingManager_isAllowed s2 ip t3;
             (r4, s4) = ThrottlingManager_isAllowed s3 ip t4
         in r1 \<and> r2 \<and> r3 \<and> \<not> r4
            \<and> blockedIPs s4 ip = Some (t4 + blockDuration tm)
            \<and> (\<forall>t. t < t4 + blockDuration tm \<longrightarrow>
                  ThrottlingManager_isAllowed s4 ip t = (False, s4))
            \<and> (\<forall>t. t \<ge> t4 + blockDuration tm \<longrightarrow>
                  (fst (ThrottlingManager_isAllowed s4 ip t) \<longleftrightarrow> windowMs tm \<le> t - t1))
            \<and> (\<forall>t. t \<ge> t4 + blockDuration tm \<and> t - t1 < windowMs tm \<longrightarrow>
                  blockedIPs (snd (ThrottlingManager_isAllowed s4 ip t)) ip
                    = Some (t + blockDuration tm))
            \<and> (windowMs tm \<le> blockDuration tm \<longrightarrow>
                  (\<forall>t. t \<ge> t4 + blockDuration tm \<longrightarrow>
                     fst (ThrottlingManager_isAllowed s4 ip t)))"
proof -
  let ?recent = "\<lambda>now (timestamp::time). now - timestamp < 1000"
  let ?inwin = "\<lambda>now (timestamp::time). now - timestamp < windowMs tm"
  define g1 where "g1 = filter (?recent t1) (globalRequests tm) @ [t1]"
  define g2 where "g2 = filter (?recent t2) g1 @ [t2]"
  define g3 where "g3 = filter (?recent t3) g2 @ [t3]"
  define g4 where "g4 = filter (?recent t4) g3"
  define s1 where "s1 = tm\<lparr>blockedIPs := (blockedIPs tm)(ip := None), globalRequests := g1,
                              requests := (requests tm)(ip \<mapsto> [t1])\<rparr>"
  define s2 where "s2 = s1\<lparr>blockedIPs := (blockedIPs s1)(ip := None), globalRequests := g2,
                              requests := (requests s1)(ip \<mapsto> [t1, t2])\<rparr>"
  define s3 where "s3 = s2\<lparr>blockedIPs := (blockedIPs s2)(ip := None), globalRequests := g3,
                              requests := (requests s2)(ip \<mapsto> [t1, t2, t3])\<rparr>"
  define s4 where "s4 = s3\<lparr>blockedIPs := (blockedIPs s3)(ip \<mapsto> t4 + blockDuration tm),
                              globalRequests := g4,
                              requests := (requests s3)(ip \<mapsto> [t1, t2, t3])\<rparr>"
  have l1: "length g1 \<le> length (globalRequests tm) + 1"
    unfolding g1_def by (simp add: le_SucI)
  have l2: "length g2 \<le> length (globalRequests tm) + 2"
    unfolding g2_def using l1 by (simp add: length_filter_bound)
  have l3: "length g3 \<le> length (globalRequests tm) + 3"
    unfolding g3_def using l2 by (simp add: length_filter_bound)
  have l4: "length g4 \<le> length (globalRequests tm) + 3"
    unfolding g4_def using l3 by (simp add: length_filter_bound)
  have step1: "ThrottlingManager_isAllowed tm ip t1 = (True, s1)"
  proof -
    have "length (filter (?recent t1) (globalRequests tm)) < maxRequestsPerSecond tm"
      using global by (intro length_filter_less) simp
    then show ?thesis
      using isAllowed_admit [of tm ip t1] fresh quota
      by (simp add: still_blocked_def s1_def g1_def)
  qed
  have step2: "ThrottlingManager_isAllowed s1 ip t2 = (True, s2)"
  proof -
    have "length (filter (?recent t2) (globalRequests s1)) < maxRequestsPerSecond s1"
      using global l1 by (simp add: s1_def length_filter_less)
    moreover have "ip_window s1 ip = [t1]" by (simp add: ip_window_def s1_def)
    moreover have "\<not> still_blocked s1 ip t2" by (simp add: still_blocked_def s1_def)
    moreover have "t2 - t1 < windowMs tm" using rapid by simp
    ultimately show ?thesis
      using isAllowed_admit [of s1 ip t2] quota
      by (simp add: s2_def g2_def s1_def)
  qed
  have step3: "ThrottlingManager_isAllowed s2 ip t3 = (True, s3)"
  proof -
    have "length (filter (?recent t3) (globalRequests s2)) < maxRequestsPerSecond s2"
      using global l2 by (simp add: s2_def s1_def length_filter_less)
    moreover have "ip_window s2 ip = [t1, t2]" by (simp add: ip_window_def s2_def)
    moreover have "\<not> still_blocked s2 ip t3" by (simp add: still_blocked_def s2_def)
    moreover have "t3 - t1 < windowMs tm" "t3 - t2 < windowMs tm" using rapid by simp_all
    ultimately show ?thesis
      using isAllowed_admit [of s2 ip t3] quota
      by (simp add: s3_def g3_def s2_def s1_def)
  qed
  have step4: "ThrottlingManager_isAllowed s3 ip t4 = (False, s4)"
  proof -
    have "length (filter (?recent t4) (globalRequests s3)) < maxRequestsPerSecond s3"
      using global l3 by (simp add: s3_def s2_def s1_def length_filter_less)
    moreover have "ip_window s3 ip = [t1, t2, t3]" by (simp add: ip_window_def s3_def)
    moreover have "\<not> still_blocked s3 ip t4" by (simp add: still_blocked_def s3_def)
    moreover have "t4 - t1 < windowMs tm" "t4 - t2 < windowMs tm" "t4 - t3 < windowMs tm"
      using rapid by simp_all
    ultimately show ?thesis
      using isAllowed_exceeded [of s3 ip t4] quota
      by (simp add: s4_def g4_def s3_def s2_def s1_def)
  qed
  have blocked: "blockedIPs s4 ip = Some (t4 + blockDuration tm)"
    by (simp add: s4_def)
  have during: "ThrottlingManager_isAllowed s4 ip t = (False, s4)" if "t < t4 + blockDuration tm" for t
    using that blocked by (simp add: isAllowed_blocked still_blocked_def)
  have cfg4: "maxRequestsPerIP s4 = 3" "windowMs s4 = windowMs tm"
      "blockDuration s4 = blockDuration tm"
    using quota by (simp_all add: s4_def s3_def s2_def s1_def)
  have w4: "ip_window s4 ip = [t1, t2, t3]" by (simp add: ip_window_def s4_def)
  have g4: "length (filter (?recent t) (globalRequests s4)) < maxRequestsPerSecond s4" for t
    using global l4 by (simp add: s4_def s3_def s2_def s1_def length_filter_less)
  have left: "fst (ThrottlingManager_isAllowed s4 ip t)"
    if t: "t \<ge> t4 + blockDuration tm" and old: "windowMs tm \<le> t - t1" for t
  proof -
    have nb: "\<not> still_blocked s4 ip t" using t by (simp add: still_blocked_def s4_def)
    have "length (filter (\<lambda>timestamp. t - timestamp < windowMs s4) (ip_window s4 ip))
        < maxRequestsPerIP s4"
      using old by (simp add: w4 cfg4)
    from isAllowed_admit [OF nb g4 this] show ?thesis by simp
  qed
  have still: "ThrottlingManager_isAllowed s4 ip t =
      (False, s4\<lparr>blockedIPs := (blockedIPs s4)(ip \<mapsto> t + blockDuration s4),
                  globalRequests := filter (?recent t) (globalRequests s4),
                  requests := (requests s4)(ip \<mapsto> ip_window s4 ip)\<rparr>)"
    if t: "t \<ge> t4 + blockDuration tm" and young: "t - t1 < windowMs tm" for t
  proof -
    have nb: "\<not> still_blocked s4 ip t" using t by (simp add: still_blocked_def s4_def)
    have "t - t2 < windowMs tm" "t - t3 < windowMs tm" using young rapid by simp_all
    then have "length (filter (\<lambda>timestamp. t - timestamp < windowMs s4) (ip_window s4 ip))
        \<ge> maxRequestsPerIP s4"
      using young by (simp add: w4 cfg4)
    from isAllowed_exceeded [OF nb g4 this] show ?thesis .
  qed
  have after: "fst (ThrottlingManager_isAllowed s4 ip t) \<longleftrightarrow> windowMs tm \<le> t - t1"
    if t: "t \<ge> t4 + blockDuration tm" for t
  proof (cases "windowMs tm \<le> t - t1")
    case True
    with left [OF t] show ?thesis by simp
  next
    case False
    then have "t - t1 < windowMs tm" by simp
    from still [OF t this] False show ?thesis by simp
  qed
  have again: "blockedIPs (snd (ThrottlingManager_isAllowed s4 ip t)) ip
                    = Some (t + blockDuration tm)"
    if "t \<ge> t4 + blockDuration tm \<and> t - t1 < windowMs tm" for t
    using that still [of t] by (simp add: cfg4)
  have default: "fst (ThrottlingManager_isAllowed s4 ip t)"
    if c: "windowMs tm \<le> blockDuration tm" and t: "t \<ge> t4 + blockDuration tm" for t
  proof -
    have "windowMs tm \<le> t - t1" using c t rapid by simp
    with after [OF t] show ?thesis by simp
  qed
  show ?thesis
    using step1 step2 step3 step4 blocked during after again default by simp
qed

theorem ThrottlingManager_rate_limit_boundary_witness:
  "maxRequestsPerIP test_throttling = 3
   \<and> ip_window test_throttling ''127.0.0.1'' = []
   \<and> blockedIPs test_throttling ''127.0.0.1'' = None
   \<and> length (globalRequests test_throttling) + 4 \<le> maxRequestsPerSecond test_throttling
   \<and> (10::time) - 10 < windowMs test_throttling
   \<and> windowMs test_throttling \<le> blockDuration test_throttling
   \<and> (let (r1, s1) = ThrottlingManager_isAllowed test_throttling ''127.0.0.1'' 10;
            (r2, s2) = ThrottlingManager_isAllowed s1 ''127.0.0.1'' 10;
            (r3, s3) = ThrottlingManager_isAllowed s2 ''127.0.0.1'' 10;
            (r4, s4) = ThrottlingManager_isAllowed s3 ''127.0.0.1'' 10
        in r1 \<and> r2 \<and> r3 \<and> \<not> r4
           \<and> blockedIPs s4 ''127.0.0.1'' = Some 210
           \<and> ThrottlingManager_isAllowed s4 ''127.0.0.1'' 209 = (False, s4)
           \<and> fst (ThrottlingManager_isAllowed s4 ''127.0.0.1'' 210))"
proof -
  have q: "maxRequestsPerIP test_throttling = 3"
    and w: "ip_window test_throttling ''127.0.0.1'' = []"
    and b: "blockedIPs test_throttling ''127.0.0.1'' = None"
    and g: "length (globalRequests test_throttling) + 4 \<le> maxRequestsPerSecond test_throttling"
    and r: "(10::time) - 10 < windowMs test_throttling"
    and c: "windowMs test_throttling \<le> blockDuration test_throttling"
    and d: "blockDuration test_throttling = 200"
    by (simp_all add: test_throttling_def ThrottlingManager_new_def ip_window_def)
  have le: "(10::time) \<le> 10" by simp
  note run = ThrottlingManager_rate_limit_boundary [OF q w b g le le le r]
  from run c d have "let (r1, s1) = ThrottlingManager_isAllowed test_throttling ''127.0.0.1'' 10;
            (r2, s2) = ThrottlingManager_isAllowed s1 ''127.0.0.1'' 10;
            (r3, s3) = ThrottlingManager_isAllowed s2 ''127.0.0.1'' 10;
            (r4, s4) = ThrottlingManager_isAllowed s3 ''127.0.0.1'' 10
        in r1 \<and> r2 \<and> r3 \<and> \<not> r4
           \<and> blockedIPs s4 ''127.0.0.1'' = Some 210
           \<and> ThrottlingManager_isAllowed s4 ''127.0.0.1'' 209 = (False, s4)
           \<and> fst (ThrottlingManager_isAllowed s4 ''127.0.0.1'' 210)"
    by (simp add: Let_def split_beta)
  with q w b g r c show ?thesis by blast
qed

section \<open>Throttling in addTransaction: properties\<close>

lemma isAllowed_mutates:
  assumes "fst (ThrottlingManager_isAllowed tm ip now)"
  shows "ThrottlingManager_isAllowed tm ip now =
     (True, tm\<lparr>blockedIPs := (blockedIPs tm)(ip := None),
               globalRequests := filter (\<lambda>timestamp. now - timestamp < 1000) (globalRequests tm) @ [now],
               requests := (requests tm)(ip \<mapsto>
                  filter (\<lambda>timestamp. now - timestamp < windowMs tm) (ip_window tm ip) @ [now])\<rparr>)"
proof -
  have nb: "\<not> still_blocked tm ip now"
    using assms by (auto simp: ThrottlingManager_isAllowed_def)
  have g: "length (filter (\<lambda>timestamp. now - timestamp < 1000) (globalRequests tm)) < maxRequestsPerSecond tm"
    using assms nb isAllowed_global_denied [of tm ip now] by (cases "length (filter (\<lambda>timestamp. now - timestamp < 1000) (globalRequests tm)) < maxRequestsPerSecond tm") auto
  have w: "length (filter (\<lambda>timestamp. now - timestamp < windowMs tm) (ip_window tm ip)) < maxRequestsPerIP tm"
    using assms nb g isAllowed_exceeded [of tm ip now] by (cases "length (filter (\<lambda>timestamp. now - timestamp < windowMs tm) (ip_window tm ip)) < maxRequestsPerIP tm") auto
  show ?thesis by (rule isAllowed_admit [OF nb g w])
qed

lemma addTransaction_throttle_admitted:
  assumes "fst (addTransaction_throttle True tm ip now now')"
  shows "addTransaction_throttle True tm ip now now' =
     (True, tm\<lparr>blockedIPs := (blockedIPs tm)(ip := None),
               globalRequests :=
                 filter (\<lambda>timestamp. now - timestamp < 1000) (globalRequests tm) @ [now, now'],
               requests := (requests tm)(ip \<mapsto>
                  filter (\<lambda>timestamp. now - timestamp < windowMs tm) (ip_window tm ip) @ [now, now'])\<rparr>)"
proof -
  have a: "fst (ThrottlingManager_isAllowed tm ip now)"
    using assms by (auto simp: addTransaction_throttle_def split: prod.splits bool.splits)
  show ?thesis
    by (simp add: addTransaction_throttle_def isAllowed_mutates [OF a]
        ThrottlingManager_recordRequest_def)
qed

lemma addTransaction_throttle_iff:
  "fst (addTransaction_throttle True tm ip now now') = fst (ThrottlingManager_isAllowed tm ip now)"
  by (auto simp: addTransaction_throttle_def split: prod.splits bool.splits)

lemma isAllowed_denied_keeps_window:
  assumes "\<not> fst (ThrottlingManager_isAllowed tm ip now)"
  shows "ip_window (snd (ThrottlingManager_isAllowed tm ip now)) ip = ip_window tm ip
    \<and> maxRequestsPerIP (snd (ThrottlingManager_isAllowed tm ip now)) = maxRequestsPerIP tm
    \<and> windowMs (snd (ThrottlingManager_isAllowed tm ip now)) = windowMs tm"
  using assms
  by (auto simp: ThrottlingManager_isAllowed_def ip_window_def Let_def split: option.splits if_splits)


lemma window_all_live:
  assumes "list_all (\<lambda>timestamp. t0 \<le> timestamp) xs" and "now < t0 + w"
  shows "filter (\<lambda>timestamp. now - timestamp < (w::time)) xs = xs"
  using assms by (induction xs) auto

lemma burst_admissions:
  assumes "list_all (\<lambda>(t, t'). t0 \<le> t \<and> t < t0 + windowMs tm \<and> t0 \<le> t' \<and> t' < t0 + windowMs tm) rs"
    and "list_all (\<lambda>timestamp. t0 \<le> timestamp) (ip_window tm ip)"
    and "length (ip_window tm ip) < maxRequestsPerIP tm \<Longrightarrow>
           blockedIPs tm ip = None
           \<and> length (globalRequests tm) + (maxRequestsPerIP tm - length (ip_window tm ip))
               \<le> maxRequestsPerSecond tm"
  shows "fst (addTransaction_burst tm ip rs) =
     map (\<lambda>j. length (ip_window tm ip) + 2 * j < maxRequestsPerIP tm) [0..<length rs]"
  using assms
proof (induction rs arbitrary: tm)
  case Nil
  then show ?case by simp
next
  case (Cons r rs)
  obtain t t' where r: "r = (t, t')" by (cases r)
  let ?m = "length (ip_window tm ip)"
  let ?step = "addTransaction_throttle True tm ip t t'"
  from Cons.prems(1) r have tw: "t0 \<le> t" "t < t0 + windowMs tm" "t0 \<le> t'" "t' < t0 + windowMs tm"
    and rest: "list_all (\<lambda>(t, t'). t0 \<le> t \<and> t < t0 + windowMs tm \<and> t0 \<le> t' \<and> t' < t0 + windowMs tm) rs"
    by simp_all
  have live: "filter (\<lambda>timestamp. t - timestamp < windowMs tm) (ip_window tm ip) = ip_window tm ip"
    by (rule window_all_live [OF Cons.prems(2) tw(2)])
  have unfold: "fst (addTransaction_burst tm ip (r # rs)) =
      fst ?step # fst (addTransaction_burst (snd ?step) ip rs)"
    by (simp add: r split: prod.splits)
  show ?case
  proof (cases "?m < maxRequestsPerIP tm")
    case True
    with Cons.prems(3) have nb: "blockedIPs tm ip = None"
      and gl: "length (globalRequests tm) + (maxRequestsPerIP tm - ?m) \<le> maxRequestsPerSecond tm"
      by simp_all
    have "length (globalRequests tm) < maxRequestsPerSecond tm" using gl True by simp
    then have g: "length (filter (\<lambda>timestamp. t - timestamp < 1000) (globalRequests tm)) < maxRequestsPerSecond tm"
      by (rule length_filter_less)
    have "\<not> still_blocked tm ip t" using nb by (simp add: still_blocked_def)
    from isAllowed_admit [OF this g] live True
    have ok: "fst (ThrottlingManager_isAllowed tm ip t)" by simp
    then have ok': "fst ?step" by (simp add: addTransaction_throttle_iff)
    note st = addTransaction_throttle_admitted [OF ok']
    let ?tm' = "snd ?step"
    have "requests ?tm' ip = Some (ip_window tm ip @ [t, t'])"
      by (simp add: st live)
    then have win': "ip_window ?tm' ip = ip_window tm ip @ [t, t']"
      by (simp add: ip_window_def)
    have cfg': "maxRequestsPerIP ?tm' = maxRequestsPerIP tm" "windowMs ?tm' = windowMs tm"
      "maxRequestsPerSecond ?tm' = maxRequestsPerSecond tm"
      by (simp_all add: st)
    have gl': "length (globalRequests ?tm') \<le> length (globalRequests tm) + 2"
      by (simp add: st length_filter_bound)
    have nb': "blockedIPs ?tm' ip = None" by (simp add: st)
    have p1: "list_all (\<lambda>(t, t'). t0 \<le> t \<and> t < t0 + windowMs ?tm' \<and> t0 \<le> t' \<and> t' < t0 + windowMs ?tm') rs"
      using rest by (simp add: cfg')
    have p2: "list_all (\<lambda>timestamp. t0 \<le> timestamp) (ip_window ?tm' ip)"
      using Cons.prems(2) tw by (simp add: win')
    have p3: "blockedIPs ?tm' ip = None
           \<and> length (globalRequests ?tm') + (maxRequestsPerIP ?tm' - length (ip_window ?tm' ip))
               \<le> maxRequestsPerSecond ?tm'"
      if "length (ip_window ?tm' ip) < maxRequestsPerIP ?tm'"
      using that gl gl' nb' by (simp add: win' cfg')
    from Cons.IH [OF p1 p2 p3]
    have "fst (addTransaction_burst ?tm' ip rs) =
        map (\<lambda>j. ?m + 2 + 2 * j < maxRequestsPerIP tm) [0..<length rs]"
      by (simp add: win' cfg')
    then show ?thesis
      using ok' True by (simp add: unfold map_upt_Suc del: upt_Suc)
  next
    case False
    then have "\<not> length (filter (\<lambda>timestamp. t - timestamp < windowMs tm) (ip_window tm ip)) < maxRequestsPerIP tm"
      by (simp add: live)
    then have deny: "\<not> fst (ThrottlingManager_isAllowed tm ip t)"
      using isAllowed_mutates [of tm ip t]
      by (auto simp: ThrottlingManager_isAllowed_def ip_window_def Let_def split: option.splits if_splits)
    then have deny': "\<not> fst ?step" by (simp add: addTransaction_throttle_iff)
    have snd_eq: "snd ?step = snd (ThrottlingManager_isAllowed tm ip t)"
      using deny by (auto simp: addTransaction_throttle_def split: prod.splits bool.splits)
    let ?tm' = "snd ?step"
    note keep = isAllowed_denied_keeps_window [OF deny, folded snd_eq]
    have p1: "list_all (\<lambda>(t, t'). t0 \<le> t \<and> t < t0 + windowMs ?tm' \<and> t0 \<le> t' \<and> t' < t0 + windowMs ?tm') rs"
      using rest keep by simp
    have p2: "list_all (\<lambda>timestamp. t0 \<le> timestamp) (ip_window ?tm' ip)"
      using Cons.prems(2) keep by simp
    have p3: "blockedIPs ?tm' ip = None
           \<and> length (globalRequests ?tm') + (maxRequestsPerIP ?tm' - length (ip_window ?tm' ip))
               \<le> maxRequestsPerSecond ?tm'"
      if "length (ip_window ?tm' ip) < maxRequestsPerIP ?tm'"
      using that False keep by simp
    from Cons.IH [OF p1 p2 p3]
    have "fst (addTransaction_burst ?tm' ip rs) =
        map (\<lambda>j. ?m + 2 * j < maxRequestsPerIP tm) [0..<length rs]"
      using keep by simp
    then show ?thesis
      using deny' False by (simp add: unfold map_upt_Suc del: upt_Suc)
  qed
qed

lemma count_half:
  "length (filter (\<lambda>ok. ok) (map (\<lambda>j. 2 * j < (M::nat)) [0..<n])) = min n ((M + 1) div 2)"
  by (induction n) auto

text \<open>
  C9. \<open>isAllowed\<close> is a mutating check: a call that returns \<open>true\<close> appends \<open>now\<close> to the
  global window and to the window of the source. \<open>addTransaction\<close> calls \<open>isAllowed\<close> and
  then \<open>recordRequest\<close>, so an admitted request leaves two timestamps in the window of
  its source. Hence, in a burst of requests of a source that starts with an empty window
  and no block, all clock readings lying within one window length, request number \<open>j\<close>
  (from 0) is admitted exactly when \<open>2 * j < MAX_REQUESTS_PER_IP\<close>: the quota is exhausted
  after \<open>(MAX_REQUESTS_PER_IP + 1) div 2\<close> admissions, half of it rounded up. (The global
  quota is taken not to bind: it has room for \<open>MAX_REQUESTS_PER_IP\<close> more timestamps.)
\<close>

theorem addTransaction_consumes_two_window_slots:
  "(fst (ThrottlingManager_isAllowed tm ip now) \<longrightarrow>
      globalRequests (snd (ThrottlingManager_isAllowed tm ip now)) =
        filter (\<lambda>timestamp. now - timestamp < 1000) (globalRequests tm) @ [now]
      \<and> requests (snd (ThrottlingManager_isAllowed tm ip now)) ip =
        Some (filter (\<lambda>timestamp. now - timestamp < windowMs tm) (ip_window tm ip) @ [now]))
   \<and> (fst (addTransaction_throttle True tm ip now now') \<longrightarrow>
      requests (snd (addTransaction_throttle True tm ip now now')) ip =
        Some (filter (\<lambda>timestamp. now - timestamp < windowMs tm) (ip_window tm ip)
              @ [now, now']))
   \<and> (ip_window tm ip = [] \<and> blockedIPs tm ip = None
       \<and> length (globalRequests tm) + maxRequestsPerIP tm \<le> maxRequestsPerSecond tm
       \<and> list_all (\<lambda>(t, t'). t0 \<le> t \<and> t < t0 + windowMs tm
                       \<and> t0 \<le> t' \<and> t' < t0 + windowMs tm) rs \<longrightarrow>
      fst (addTransaction_burst tm ip rs) =
        map (\<lambda>j. 2 * j < maxRequestsPerIP tm) [0..<length rs]
      \<and> length (filter (\<lambda>ok. ok) (fst (addTransaction_burst tm ip rs))) =
        min (length rs) ((maxRequestsPerIP tm + 1) div 2))"
proof -
  have a: "globalRequests (snd (ThrottlingManager_isAllowed tm ip now)) =
        filter (\<lambda>timestamp. now - timestamp < 1000) (globalRequests tm) @ [now]
      \<and> requests (snd (ThrottlingManager_isAllowed tm ip now)) ip =
        Some (filter (\<lambda>timestamp. now - timestamp < windowMs tm) (ip_window tm ip) @ [now])"
    if "fst (ThrottlingManager_isAllowed tm ip now)"
    by (simp add: isAllowed_mutates [OF that])
  have b: "requests (snd (addTransaction_throttle True tm ip now now')) ip =
        Some (filter (\<lambda>timestamp. now - timestamp < windowMs tm) (ip_window tm ip)
              @ [now, now'])"
    if "fst (addTransaction_throttle True tm ip now now')"
    by (simp add: addTransaction_throttle_admitted [OF that])
  have c: "fst (addTransaction_burst tm ip rs) =
        map (\<lambda>j. 2 * j < maxRequestsPerIP tm) [0..<length rs]
      \<and> length (filter (\<lambda>ok. ok) (fst (addTransaction_burst tm ip rs))) =
        min (length rs) ((maxRequestsPerIP tm + 1) div 2)"
    if w: "ip_window tm ip = []" and nb: "blockedIPs tm ip = None"
      and g: "length (globalRequests tm) + maxRequestsPerIP tm \<le> maxRequestsPerSecond tm"
      and rs: "list_all (\<lambda>(t, t'). t0 \<le> t \<and> t < t0 + windowMs tm
                       \<and> t0 \<le> t' \<and> t' < t0 + windowMs tm) rs"
  proof -
    have "fst (addTransaction_burst tm ip rs) =
        map (\<lambda>j. length (ip_window tm ip) + 2 * j < maxRequestsPerIP tm) [0..<length rs]"
      using rs w nb g by (intro burst_admissions [where ?t0.0 = t0]) simp_all
    then have run: "fst (addTransaction_burst tm ip rs) =
        map (\<lambda>j. 2 * j < maxRequestsPerIP tm) [0..<length rs]"
      by (simp add: w)
    show ?thesis
      using run count_half [of "maxRequestsPerIP tm" "length rs"] by simp
  qed
  from a b c show ?thesis by blast
qed

theorem addTransaction_consumes_two_window_slots_witness:
  "fst (ThrottlingManager_isAllowed test_throttling ''127.0.0.1'' 10)
   \<and> requests (snd (ThrottlingManager_isAllowed test_throttling ''127.0.0.1'' 10)) ''127.0.0.1''
       = Some [10]
   \<and> fst (addTransaction_throttle True test_throttling ''127.0.0.1'' 10 11)
   \<and> requests (snd (addTransaction_throttle True test_throttling ''127.0.0.1'' 10 11)) ''127.0.0.1''
       = Some [10, 11]
   \<and> ip_window test_throttling ''127.0.0.1'' = []
   \<and> blockedIPs test_throttling ''127.0.0.1'' = None
   \<and> length (globalRequests test_throttling) + maxRequestsPerIP test_throttling
       \<le> maxRequestsPerSecond test_throttling
   \<and> list_all (\<lambda>(t, t'). 10 \<le> t \<and> t < 10 + windowMs test_throttling
                   \<and> 10 \<le> t' \<and> t' < 10 + windowMs test_throttling) [(10, 11), (20, 20), (30, 31)]
   \<and> fst (addTransaction_burst test_throttling ''127.0.0.1'' [(10, 11), (20, 20), (30, 31)])
       = [True, True, False]"
proof -
  let ?ip = "''127.0.0.1''"
  let ?rs = "[(10, 11), (20, 20), (30, 31)] :: (time \<times> time) list"
  have cfg: "maxRequestsPerIP test_throttling = 3" "windowMs test_throttling = 100"
    and w: "ip_window test_throttling ?ip = []"
    and nb: "blockedIPs test_throttling ?ip = None"
    and g: "length (globalRequests test_throttling) + maxRequestsPerIP test_throttling
       \<le> maxRequestsPerSecond test_throttling"
    by (simp_all add: test_throttling_def ThrottlingManager_new_def ip_window_def)
  have rs: "list_all (\<lambda>(t, t'). 10 \<le> t \<and> t < 10 + windowMs test_throttling
                   \<and> 10 \<le> t' \<and> t' < 10 + windowMs test_throttling) ?rs"
    by (simp add: cfg)
  have ok: "fst (ThrottlingManager_isAllowed test_throttling ?ip 10)"
    by (simp add: test_throttling_def ThrottlingManager_new_def ThrottlingManager_isAllowed_def
        still_blocked_def Let_def)
  then have ok': "fst (addTransaction_throttle True test_throttling ?ip 10 11)"
    by (simp add: addTransaction_throttle_iff)
  note T = addTransaction_consumes_two_window_slots
    [of test_throttling ?ip 10 11 10 ?rs]
  from T ok w have r1: "requests (snd (ThrottlingManager_isAllowed test_throttling ?ip 10)) ?ip
       = Some [10]" by simp
  from T ok' w have r2: "requests (snd (addTransaction_throttle True test_throttling ?ip 10 11)) ?ip
       = Some [10, 11]" by simp
  from T w nb g rs have "fst (addTransaction_burst test_throttling ?ip ?rs) =
        map (\<lambda>j. 2 * j < maxRequestsPerIP test_throttling) [0..<length ?rs]" by blast
  then have r3: "fst (addTransaction_burst test_throttling ?ip ?rs) = [True, True, False]"
    by (simp add: cfg upt_rec)
  from ok r1 ok' r2 w nb g rs r3 show ?thesis by blast
qed

section \<open>ShardManager: properties\<close>

lemma list_all_update:
  "list_all P xs \<Longrightarrow> P x \<Longrightarrow> list_all P (xs[i := x])"
  by (induction xs arbitrary: i) (auto split: nat.splits)

lemma mset_concat_update:
  "i < length xs \<Longrightarrow>
     mset (concat (map f (xs[i := x]))) + mset (f (xs ! i)) = mset (concat (map f xs)) + mset (f x)"
  by (induction xs arbitrary: i) (auto split: nat.splits)

lemma ShardManager_new_ok:
  "list_all shard_ok (shards (ShardManager_new config now))
   \<and> ShardManager_wf (ShardManager_new config now)
   \<and> list_all (\<lambda>shard. load shard = 0 \<and> transactions shard = []) (shards (ShardManager_new config now))"
  by (simp add: ShardManager_new_def Let_def list_all_iff shard_ok_def ShardManager_wf_def)

lemma getShardIndex_in_range:
  "0 < shardCount sm \<Longrightarrow> ShardManager_getShardIndex h s sm tx < shardCount sm"
  by (simp add: ShardManager_getShardIndex_def Let_def)

lemma assignToShard_returns:
  assumes "ShardManager_wf sm"
  shows "\<exists>sm'. ShardManager_assignToShard h s sm tx = Inr (ShardManager_getShardIndex h s sm tx, sm')"
  using assms getShardIndex_in_range [of sm h s tx]
  by (simp add: ShardManager_assignToShard_def Let_def ShardManager_wf_def)

lemma assignToShard_ok:
  assumes "list_all shard_ok (shards sm)" and "ShardManager_assignToShard h s sm tx = Inr (i, sm')"
  shows "list_all shard_ok (shards sm') \<and> shardCount sm' = shardCount sm
    \<and> length (shards sm') = length (shards sm)"
proof -
  let ?i = "ShardManager_getShardIndex h s sm tx"
  from assms(2) have r: "?i < length (shards sm)" and i: "i = ?i"
    and sm': "sm' = sm\<lparr>shards := (shards sm)[?i := (shards sm ! ?i)
        \<lparr>transactions := transactions (shards sm ! ?i) @ [tx], load := load (shards sm ! ?i) + 1\<rparr>]\<rparr>"
    by (auto simp: ShardManager_assignToShard_def Let_def split: if_splits)
  from assms(1) r have "shard_ok (shards sm ! ?i)" by (simp add: list_all_length)
  then have "shard_ok ((shards sm ! ?i)
        \<lparr>transactions := transactions (shards sm ! ?i) @ [tx], load := load (shards sm ! ?i) + 1\<rparr>)"
    by (simp add: shard_ok_def)
  with assms(1) show ?thesis by (simp add: sm' list_all_update)
qed

lemma removeTransactionsFromShard_returns:
  assumes "ShardManager_wf sm" and "0 \<le> k" and "k < int (shardCount sm)"
  shows "\<exists>n sm'. ShardManager_removeTransactionsFromShard sm k ids = Inr (n, sm')"
  using assms
  by (simp add: ShardManager_removeTransactionsFromShard_def Let_def ShardManager_wf_def)

lemma removeTransactionsFromShard_ok:
  assumes "list_all shard_ok (shards sm)"
    and "ShardManager_removeTransactionsFromShard sm k ids = Inr (n, sm')"
  shows "list_all shard_ok (shards sm') \<and> shardCount sm' = shardCount sm
    \<and> length (shards sm') = length (shards sm)"
proof -
  let ?sh = "shards sm ! nat k"
  let ?kept = "filter (\<lambda>tx. tx_id tx \<notin> set ids) (transactions ?sh)"
  from assms(2) have r: "nat k < length (shards sm)"
    and sm': "sm' = sm\<lparr>shards := (shards sm)[nat k := ?sh
        \<lparr>transactions := ?kept,
         load := load ?sh - (int (length (transactions ?sh)) - int (length ?kept))\<rparr>]\<rparr>"
    by (auto simp: ShardManager_removeTransactionsFromShard_def Let_def split: if_splits)
  from assms(1) r have "shard_ok ?sh" by (simp add: list_all_length)
  then have "shard_ok (?sh\<lparr>transactions := ?kept,
         load := load ?sh - (int (length (transactions ?sh)) - int (length ?kept))\<rparr>)"
    by (simp add: shard_ok_def)
  with assms(1) show ?thesis by (simp add: sm' list_all_update)
qed

lemma move_transactions_eq:
  assumes "i \<noteq> j" and "i < length ss" and "j < length ss"
  shows "move_transactions i j toMove ss =
     ss[i := (ss ! i)\<lparr>transactions := drop (nat toMove) (transactions (ss ! i)),
                      load := load (ss ! i) - toMove\<rparr>,
        j := (ss ! j)\<lparr>transactions := transactions (ss ! j) @ take (nat toMove) (transactions (ss ! i)),
                      load := load (ss ! j) + toMove\<rparr>]"
  using assms
  by (simp add: move_transactions_def Let_def list_update_swap [of i j])


lemma move_transactions_ok:
  assumes ij: "i \<noteq> j" "i < length ss" "j < length ss"
    and ok: "list_all shard_ok ss"
    and mv: "toMove = (load (ss ! i) - load (ss ! j)) div 2" "0 < toMove"
  shows "list_all shard_ok (move_transactions i j toMove ss)"
    and "length (move_transactions i j toMove ss) = length ss"
    and "mset (concat (map transactions (move_transactions i j toMove ss))) =
         mset (concat (map transactions ss))"
proof -
  let ?si = "ss ! i" and ?sj = "ss ! j"
  let ?k = "nat toMove"
  let ?si' = "?si\<lparr>transactions := drop ?k (transactions ?si), load := load ?si - toMove\<rparr>"
  let ?sj' = "?sj\<lparr>transactions := transactions ?sj @ take ?k (transactions ?si),
                     load := load ?sj + toMove\<rparr>"
  note eq = move_transactions_eq [OF ij, of toMove]
  from ok ij have oki: "shard_ok ?si" and okj: "shard_ok ?sj"
    by (simp_all add: list_all_length)
  then have li: "load ?si = int (length (transactions ?si))"
    and lj: "load ?sj = int (length (transactions ?sj))"
    by (simp_all add: shard_ok_def)
  from mv li lj have k: "?k \<le> length (transactions ?si)" by linarith
  have oki': "shard_ok ?si'" using li k mv(2) by (simp add: shard_ok_def)
  have okj': "shard_ok ?sj'" using lj k mv(2) by (simp add: shard_ok_def min_absorb2)
  show "list_all shard_ok (move_transactions i j toMove ss)"
    unfolding eq by (intro list_all_update ok oki' okj')
  show "length (move_transactions i j toMove ss) = length ss"
    unfolding eq by simp
  have a: "mset (concat (map transactions (ss[i := ?si']))) + mset (transactions ?si)
      = mset (concat (map transactions ss)) + mset (transactions ?si')"
    using mset_concat_update [of i ss transactions ?si'] ij by simp
  have b: "mset (concat (map transactions (ss[i := ?si', j := ?sj']))) + mset (transactions ?sj)
      = mset (concat (map transactions (ss[i := ?si']))) + mset (transactions ?sj')"
    using mset_concat_update [of j "ss[i := ?si']" transactions ?sj'] ij by simp
  have split: "mset (transactions ?si) =
      mset (take ?k (transactions ?si)) + mset (drop ?k (transactions ?si))"
    by (metis append_take_drop_id mset_append)
  have "mset (concat (map transactions (ss[i := ?si', j := ?sj'])))
        + (mset (transactions ?sj) + mset (transactions ?si))
      = mset (concat (map transactions ss))
        + (mset (transactions ?sj) + mset (transactions ?si))"
    using a b split by (simp add: ac_simps)
  then show "mset (concat (map transactions (move_transactions i j toMove ss))) =
         mset (concat (map transactions ss))"
    unfolding eq by simp
qed

lemma rebalance_loop_ok:
  assumes "list_all shard_ok ss"
    and "distinct (overs @ unders)"
    and "list_all (\<lambda>i. i < length ss) (overs @ unders)"
  shows "list_all shard_ok (rebalance_loop overs unders ss)
    \<and> length (rebalance_loop overs unders ss) = length ss
    \<and> mset (concat (map transactions (rebalance_loop overs unders ss))) =
        mset (concat (map transactions ss))"
  using assms
proof (induction overs unders ss rule: rebalance_loop.induct)
  case (1 unders ss)
  then show ?case by simp
next
  case (2 i rest ss)
  then show ?case by simp
next
  case (3 i rest j unders ss)
  let ?toMove = "(load (ss ! i) - load (ss ! j)) div 2"
  from "3.prems" have d: "distinct (rest @ unders)" and ij: "i \<noteq> j"
    and r: "list_all (\<lambda>i. i < length ss) (rest @ unders)"
    and i: "i < length ss" and j: "j < length ss"
    by auto
  show ?case
  proof (cases "?toMove \<le> 0")
    case True
    with "3.IH"(1) [OF True "3.prems"(1) d r] show ?thesis by simp
  next
    case False
    let ?ss' = "move_transactions i j ?toMove ss"
    from False have pos: "0 < ?toMove" by simp
    note mv = move_transactions_ok [OF ij i j "3.prems"(1) refl pos]
    have r': "list_all (\<lambda>i. i < length ?ss') (rest @ unders)"
      using r by (simp add: mv(2))
    from "3.IH"(2) [OF False mv(1) d r'] False mv show ?thesis by simp
  qed
qed

lemma classes_distinct:
  "distinct (filter (is_overloaded sm) [0..<n] @ filter (is_underloaded sm) [0..<n])"
  by (auto simp: is_underloaded_def Let_def)

lemma rebalance_returns:
  assumes "ShardManager_wf sm"
  shows "\<exists>sm'. ShardManager_rebalance sm now = Inr sm'"
  using assms by (simp add: ShardManager_rebalance_def ShardManager_wf_def Let_def)

lemma rebalance_ok:
  assumes "list_all shard_ok (shards sm)" and "ShardManager_rebalance sm now = Inr sm'"
  shows "list_all shard_ok (shards sm') \<and> shardCount sm' = shardCount sm
    \<and> length (shards sm') = length (shards sm)
    \<and> mset (all_shard_transactions sm') = mset (all_shard_transactions sm)"
proof (cases "now - lastRebalanceTime sm < rebalanceInterval sm")
  case True
  with assms show ?thesis by (simp add: ShardManager_rebalance_def)
next
  case False
  let ?over = "filter (is_overloaded sm) [0..<shardCount sm]"
  let ?under = "filter (is_underloaded sm) [0..<shardCount sm]"
  from assms(2) False have n: "shardCount sm \<le> length (shards sm)"
    and sm': "sm' = sm\<lparr>lastRebalanceTime := now,
                        shards := rebalance_loop ?over ?under (shards sm)\<rparr>"
    by (auto simp: ShardManager_rebalance_def Let_def split: if_splits)
  have r: "list_all (\<lambda>i. i < length (shards sm)) (?over @ ?under)"
    using n by (auto simp: list_all_iff)
  from rebalance_loop_ok [OF assms(1) classes_distinct r]
  show ?thesis by (simp add: sm' all_shard_transactions_def)
qed

text \<open>
  C10. In every shard the load counter equals the number of transactions held. This is
  so at startup, where every shard has load \<open>0\<close> and no transaction, and each of
  \<open>assignToShard\<close>, \<open>removeTransactionsFromShard\<close> (with a valid index) and \<open>rebalance\<close>
  returns normally and preserves it. \<open>rebalance\<close> moreover keeps the transactions of all
  shards together the same as a multiset: none is dropped, none duplicated, and the
  total count is unchanged.
\<close>

theorem ShardManager_load_equals_count:
  "list_all (\<lambda>shard. load shard = 0 \<and> transactions shard = [])
     (shards (ShardManager_new config now0))
   \<and> list_all shard_ok (shards (ShardManager_new config now0))
   \<and> ShardManager_wf (ShardManager_new config now0)
   \<and> (list_all shard_ok (shards sm) \<and> ShardManager_wf sm \<longrightarrow>
        (case ShardManager_assignToShard sha256_prefix number_toString sm tx of
           Inl e \<Rightarrow> False
         | Inr (i, sm') \<Rightarrow> list_all shard_ok (shards sm') \<and> ShardManager_wf sm')
      \<and> (0 \<le> k \<and> k < int (shardCount sm) \<longrightarrow>
           (case ShardManager_removeTransactionsFromShard sm k ids of
              Inl e \<Rightarrow> False
            | Inr (n, sm') \<Rightarrow> list_all shard_ok (shards sm') \<and> ShardManager_wf sm'))
      \<and> (case ShardManager_rebalance sm now of
           Inl e \<Rightarrow> False
         | Inr sm' \<Rightarrow> list_all shard_ok (shards sm') \<and> ShardManager_wf sm'
             \<and> mset (all_shard_transactions sm') = mset (all_shard_transactions sm)
             \<and> length (all_shard_transactions sm') = length (all_shard_transactions sm)))"
proof -
  have assign: "case ShardManager_assignToShard sha256_prefix number_toString sm tx of
           Inl e \<Rightarrow> False
         | Inr (i, sm') \<Rightarrow> list_all shard_ok (shards sm') \<and> ShardManager_wf sm'"
    if ok: "list_all shard_ok (shards sm)" and wf: "ShardManager_wf sm"
  proof -
    from assignToShard_returns [OF wf] obtain i sm'
      where r: "ShardManager_assignToShard sha256_prefix number_toString sm tx = Inr (i, sm')"
      by blast
    from assignToShard_ok [OF ok r] wf show ?thesis
      by (simp add: r ShardManager_wf_def)
  qed
  have remove: "case ShardManager_removeTransactionsFromShard sm k ids of
              Inl e \<Rightarrow> False
            | Inr (n, sm') \<Rightarrow> list_all shard_ok (shards sm') \<and> ShardManager_wf sm'"
    if ok: "list_all shard_ok (shards sm)" and wf: "ShardManager_wf sm"
      and k: "0 \<le> k" "k < int (shardCount sm)"
  proof -
    from removeTransactionsFromShard_returns [OF wf k] obtain n sm'
      where r: "ShardManager_removeTransactionsFromShard sm k ids = Inr (n, sm')"
      by blast
    from removeTransactionsFromShard_ok [OF ok r] wf show ?thesis
      by (simp add: r ShardManager_wf_def)
  qed
  have rebalance: "case ShardManager_rebalance sm now of
           Inl e \<Rightarrow> False
         | Inr sm' \<Rightarrow> list_all shard_ok (shards sm') \<and> ShardManager_wf sm'
             \<and> mset (all_shard_transactions sm') = mset (all_shard_transactions sm)
             \<and> length (all_shard_transactions sm') = length (all_shard_transactions sm)"
    if ok: "list_all shard_ok (shards sm)" and wf: "ShardManager_wf sm"
  proof -
    from rebalance_returns [OF wf] obtain sm'
      where r: "ShardManager_rebalance sm now = Inr sm'"
      by blast
    note p = rebalance_ok [OF ok r]
    from p have "size (mset (all_shard_transactions sm')) = size (mset (all_shard_transactions sm))"
      by simp
    then have "length (all_shard_transactions sm') = length (all_shard_transactions sm)"
      by simp
    with p wf show ?thesis
      by (simp add: r ShardManager_wf_def)
  qed
  from ShardManager_new_ok [of config now0] assign remove rebalance show ?thesis
    by blast
qed

theorem ShardManager_load_equals_count_witness:
  "list_all shard_ok (shards unbalanced_shards)
   \<and> ShardManager_wf unbalanced_shards
   \<and> (0::int) \<le> 0 \<and> (0::int) < int (shardCount unbalanced_shards)
   \<and> (case ShardManager_assignToShard (\<lambda>key. 7) (\<lambda>n. ''1000'') unbalanced_shards
              (test_transaction ''extra_4'') of
         Inl e \<Rightarrow> False
       | Inr (i, sm') \<Rightarrow> list_all shard_ok (shards sm') \<and> ShardManager_wf sm')
   \<and> (case ShardManager_removeTransactionsFromShard unbalanced_shards 0 [''extra_1'', ''extra_2''] of
         Inl e \<Rightarrow> False
       | Inr (n, sm') \<Rightarrow> list_all shard_ok (shards sm') \<and> ShardManager_wf sm')
   \<and> (case ShardManager_rebalance unbalanced_shards 100 of
         Inl e \<Rightarrow> False
       | Inr sm' \<Rightarrow> list_all shard_ok (shards sm') \<and> ShardManager_wf sm'
           \<and> mset (all_shard_transactions sm') = mset (all_shard_transactions unbalanced_shards)
           \<and> length (all_shard_transactions sm') = length (all_shard_transactions unbalanced_shards))
   \<and> map (\<lambda>shard. map tx_id (transactions shard))
        (shards (projr (ShardManager_rebalance unbalanced_shards 100)))
       = [[''extra_2'', ''extra_3''], [''extra_0'', ''extra_1''], []]"
proof -
  have ok: "list_all shard_ok (shards unbalanced_shards)"
    and wf: "ShardManager_wf unbalanced_shards"
    and k: "(0::int) \<le> 0" "(0::int) < int (shardCount unbalanced_shards)"
    by (simp_all add: unbalanced_shards_def shard_ok_def ShardManager_wf_def)
  note T = ShardManager_load_equals_count
    [of _ _ unbalanced_shards "\<lambda>key. 7" "\<lambda>n. ''1000''" "test_transaction ''extra_4''" 0
        "[''extra_1'', ''extra_2'']" 100]
  have moved: "map (\<lambda>shard. map tx_id (transactions shard))
        (shards (projr (ShardManager_rebalance unbalanced_shards 100)))
       = [[''extra_2'', ''extra_3''], [''extra_0'', ''extra_1''], []]"
    by (simp add: ShardManager_rebalance_def unbalanced_shards_def is_overloaded_def
        is_underloaded_def move_transactions_def test_transaction_def Let_def upt_rec)
  from T ok wf k moved show ?thesis by blast
qed

section \<open>Bundle execution: properties\<close>

lemma filter_not_taken:
  assumes "distinct (map f xs)"
  shows "filter (\<lambda>x. f x \<notin> set (map f (take k xs))) xs = drop k xs"
proof -
  have d: "distinct (map f (take k xs) @ map f (drop k xs))"
    using assms by (metis append_take_drop_id map_append)
  have a: "filter (\<lambda>x. f x \<notin> set (map f (take k xs))) (take k xs) = []"
    by (auto simp: filter_empty_conv)
  have b: "filter (\<lambda>x. f x \<notin> set (map f (take k xs))) (drop k xs) = drop k xs"
    using d by (auto simp: filter_id_conv)
  have "filter (\<lambda>x. f x \<notin> set (map f (take k xs))) (take k xs @ drop k xs) = drop k xs"
    unfolding filter_append a b by simp
  then show ?thesis by simp
qed

lemma pending_consistent_queue:
  assumes "pending_consistent e"
  shows "distinct (map tx_id (priorityQueue (transactionOptimizer e)))"
    and "length (priorityQueue (transactionOptimizer e)) = length (pendingTransactions e)"
proof -
  from assms have m: "mset (priorityQueue (transactionOptimizer e)) = mset (pendingTransactions e)"
    and d: "distinct (map tx_id (pendingTransactions e))"
    by (simp_all add: pending_consistent_def)
  from m have "mset (map tx_id (priorityQueue (transactionOptimizer e)))
      = mset (map tx_id (pendingTransactions e))" by (metis mset_map)
  with d show "distinct (map tx_id (priorityQueue (transactionOptimizer e)))"
    by (metis mset_eq_imp_distinct_iff)
  from m show "length (priorityQueue (transactionOptimizer e)) = length (pendingTransactions e)"
    by (metis size_mset)
qed

lemma executeBundle_pending:
  assumes "pendingTransactions e \<noteq> []" and "\<not> bundleInProgress e"
  shows "pendingTransactions (engine_after_execute bid send now e) =
      filter (\<lambda>tx. tx_id tx \<notin> set (map tx_id (transactionsToExecute e))) (pendingTransactions e)"
    and "priorityQueue (transactionOptimizer (engine_after_execute bid send now e)) =
      filter (\<lambda>tx. tx_id tx \<notin> set (map tx_id (transactionsToExecute e)))
        (priorityQueue (transactionOptimizer e))"
    and "shardManager (engine_after_execute bid send now e) = shardManager e"
    and "\<not> bundleInProgress (engine_after_execute bid send now e)"
  using assms
  by (simp_all add: engine_after_execute_def executeBundleTransactions_def Let_def
      TransactionOptimizer_removeTransactions_def split: prod.splits)

lemma executeBundle_selection:
  assumes inv: "pending_consistent e"
  shows "length (transactionsToExecute e) = min (length (pendingTransactions e)) BUNDLE_SIZE"
    and "mset (filter (\<lambda>tx. tx_id tx \<notin> set (map tx_id (transactionsToExecute e)))
            (pendingTransactions e)) + mset (transactionsToExecute e)
         = mset (pendingTransactions e)"
    and "filter (\<lambda>tx. tx_id tx \<notin> set (map tx_id (transactionsToExecute e)))
            (priorityQueue (transactionOptimizer e))
         = drop (min (length (pendingTransactions e)) BUNDLE_SIZE)
             (priorityQueue (transactionOptimizer e))"
proof -
  let ?q = "priorityQueue (transactionOptimizer e)"
  let ?k = "min (length (pendingTransactions e)) BUNDLE_SIZE"
  let ?P = "\<lambda>tx. tx_id tx \<notin> set (map tx_id (transactionsToExecute e))"
  note q = pending_consistent_queue [OF inv]
  have sel: "transactionsToExecute e = take ?k ?q"
    by (simp add: transactionsToExecute_def TransactionOptimizer_getOptimizedTransactions_def)
  show "length (transactionsToExecute e) = ?k"
    by (simp add: sel q(2))
  have fq: "filter ?P ?q = drop ?k ?q"
    unfolding sel by (rule filter_not_taken [OF q(1)])
  then show "filter ?P ?q = drop ?k ?q" .
  from inv have m: "mset ?q = mset (pendingTransactions e)"
    by (simp add: pending_consistent_def)
  have "mset (filter ?P (pendingTransactions e)) = mset (filter ?P ?q)"
    by (simp only: mset_filter m)
  also have "\<dots> = mset (drop ?k ?q)" by (simp only: fq)
  finally have "mset (filter ?P (pendingTransactions e)) + mset (transactionsToExecute e)
      = mset (drop ?k ?q) + mset (take ?k ?q)" by (simp add: sel)
  also have "\<dots> = mset ?q" by (metis add.commute append_take_drop_id mset_append)
  finally show "mset (filter ?P (pendingTransactions e)) + mset (transactionsToExecute e)
         = mset (pendingTransactions e)" by (simp add: m)
qed


lemma Engine_new_consistent: "pending_consistent (Engine_new sharding workerCount now)"
  by (simp add: pending_consistent_def Engine_new_def TransactionOptimizer_new_def)

lemma enqueue_consistent:
  assumes "pending_consistent e"
    and "tx_id tx \<notin> set (map tx_id (pendingTransactions e))"
    and "addTransaction_enqueue h s e tx now = Inr (p, i, e')"
  shows "pending_consistent e'"
  using assms
  by (auto simp: pending_consistent_def addTransaction_enqueue_def
      TransactionOptimizer_addTransaction_def Let_def split: if_splits sum.splits)

lemma execute_consistent:
  assumes "pending_consistent e"
  shows "pending_consistent (engine_after_execute bid send now e)"
proof (cases "pendingTransactions e = [] \<or> bundleInProgress e")
  case True
  with assms show ?thesis
    by (auto simp: engine_after_execute_def executeBundleTransactions_def)
next
  case False
  then have ne: "pendingTransactions e \<noteq> []" and np: "\<not> bundleInProgress e" by simp_all
  note st = executeBundle_pending [OF ne np, of bid send now]
  from assms have d: "distinct (map tx_id (pendingTransactions e))"
    and m: "mset (priorityQueue (transactionOptimizer e)) = mset (pendingTransactions e)"
    by (simp_all add: pending_consistent_def)
  show ?thesis
    unfolding pending_consistent_def st(1) st(2)
    using d m by (simp add: distinct_map_filter)
qed

lemma distribute_loop_left:
  "snd (distribute_loop ws per txs) = drop (length ws * per) txs"
proof (induction ws arbitrary: txs)
  case Nil
  show ?case by simp
next
  case (Cons w ws)
  have "snd (distribute_loop (w # ws) per txs) =
      (if txs = [] then [] else snd (distribute_loop ws per (drop per txs)))"
    by (simp split: prod.splits)
  also have "\<dots> = drop (length (w # ws) * per) txs"
    by (simp add: Cons.IH add.commute)
  finally show ?case .
qed

lemma distribute_leaves_nothing:
  assumes "0 < workerCount"
  shows "snd (distributeTransactionsToWorkers workerCount txs) = []"
proof -
  have "length txs + workerCount - 1
      < workerCount + (length txs + workerCount - 1) div workerCount * workerCount"
    using assms by (rule dividend_less_div_times)
  with assms have "length txs \<le> workerCount * ((length txs + workerCount - 1) div workerCount)"
    by (simp add: mult.commute)
  then show ?thesis
    by (simp add: distributeTransactionsToWorkers_def distribute_loop_left)
qed

text \<open>
  C3. \<open>executeBundle\<close> on a non-empty pending pool with no execution in flight selects
  exactly \<open>min(pending, BUNDLE_SIZE)\<close> transfers; the pending pool before is the pending
  pool after together with the selected transfers, as multisets and so in number; no
  transfer, and no identifier, is both still pending and selected. The pending indexes
  are taken as admission and execution leave them (\<open>pending_consistent\<close>: distinct
  identifiers, and the priority queue holding the pending pool), which the call
  preserves.
\<close>

theorem executeBundle_conservation:
  assumes "pendingTransactions e \<noteq> []" and "\<not> bundleInProgress e"
    and "pending_consistent e"
  shows "length (transactionsToExecute e) = min (length (pendingTransactions e)) BUNDLE_SIZE
    \<and> length (pendingTransactions e) =
        length (pendingTransactions (engine_after_execute bid send now e))
        + length (transactionsToExecute e)
    \<and> mset (pendingTransactions e) =
        mset (pendingTransactions (engine_after_execute bid send now e))
        + mset (transactionsToExecute e)
    \<and> set (map tx_id (pendingTransactions (engine_after_execute bid send now e)))
        \<inter> set (map tx_id (transactionsToExecute e)) = {}
    \<and> set (pendingTransactions (engine_after_execute bid send now e))
        \<inter> set (transactionsToExecute e) = {}
    \<and> pending_consistent (engine_after_execute bid send now e)"
proof -
  let ?e' = "engine_after_execute bid send now e"
  note st = executeBundle_pending [OF assms(1,2), of bid send now]
  note sel = executeBundle_selection [OF assms(3)]
  have m: "mset (pendingTransactions e) =
        mset (pendingTransactions ?e') + mset (transactionsToExecute e)"
    using sel(2) by (simp add: st(1))
  then have "size (mset (pendingTransactions e)) =
        size (mset (pendingTransactions ?e') + mset (transactionsToExecute e))"
    by simp
  then have l: "length (pendingTransactions e) =
        length (pendingTransactions ?e') + length (transactionsToExecute e)"
    by simp
  have i: "set (map tx_id (pendingTransactions ?e'))
        \<inter> set (map tx_id (transactionsToExecute e)) = {}"
    by (auto simp: st(1))
  then have j: "set (pendingTransactions ?e') \<inter> set (transactionsToExecute e) = {}"
    by auto
  from sel(1) l m i j execute_consistent [OF assms(3)] show ?thesis by blast
qed

theorem executeBundle_conservation_witness:
  "pendingTransactions two_pending \<noteq> []
   \<and> \<not> bundleInProgress two_pending
   \<and> pending_consistent two_pending
   \<and> map tx_id (pendingTransactions two_pending) = [''small'', ''large'']
   \<and> map tx_id (transactionsToExecute two_pending) = [''large'', ''small'']
   \<and> length (transactionsToExecute two_pending)
       = min (length (pendingTransactions two_pending)) BUNDLE_SIZE
   \<and> length (pendingTransactions two_pending) =
       length (pendingTransactions
                 (engine_after_execute ''bundle1'' (\<lambda>tx. Some ''sig'') 1 two_pending))
       + length (transactionsToExecute two_pending)
   \<and> pendingTransactions (engine_after_execute ''bundle1'' (\<lambda>tx. Some ''sig'') 1 two_pending) = []"
proof -
  let ?e' = "engine_after_execute ''bundle1'' (\<lambda>tx. Some ''sig'') 1 two_pending"
  have state: "map tx_id (pendingTransactions two_pending) = [''small'', ''large'']"
      "map tx_id (priorityQueue (transactionOptimizer two_pending)) = [''large'', ''small'']"
      "\<not> bundleInProgress two_pending"
    by (simp_all add: two_pending_def addTransaction_enqueue_def Engine_new_def
        test_sharding_config_def test_transaction_def TransactionOptimizer_addTransaction_def
        TransactionOptimizer_new_def TransactionOptimizer_calculatePriority_def
        ShardManager_assignToShard_def ShardManager_getShardIndex_def ShardManager_new_def
        Let_def)
  from state(1) have ne: "pendingTransactions two_pending \<noteq> []" by auto
  have inv: "pending_consistent two_pending"
    by (simp add: pending_consistent_def two_pending_def addTransaction_enqueue_def
        Engine_new_def test_sharding_config_def test_transaction_def
        TransactionOptimizer_addTransaction_def TransactionOptimizer_new_def
        TransactionOptimizer_calculatePriority_def ShardManager_assignToShard_def
        ShardManager_getShardIndex_def ShardManager_new_def Let_def add_mset_commute)
  have lp: "length (pendingTransactions two_pending) = 2"
    using arg_cong [OF state(1), of length] by simp
  have lq: "length (priorityQueue (transactionOptimizer two_pending)) = 2"
    using arg_cong [OF state(2), of length] by simp
  have sel: "map tx_id (transactionsToExecute two_pending) = [''large'', ''small'']"
    using state(2) lq
    by (simp add: transactionsToExecute_def TransactionOptimizer_getOptimizedTransactions_def
        BUNDLE_SIZE_def lp)
  have ls: "length (transactionsToExecute two_pending) = 2"
    using arg_cong [OF sel, of length] by simp
  note T = executeBundle_conservation
    [OF ne state(3) inv, of "''bundle1''" "\<lambda>tx. Some ''sig''" 1]
  from T have c1: "length (transactionsToExecute two_pending)
       = min (length (pendingTransactions two_pending)) BUNDLE_SIZE"
    by (rule conjunct1)
  from T have c2: "length (pendingTransactions two_pending) =
       length (pendingTransactions ?e') + length (transactionsToExecute two_pending)"
    by (elim conjE)
  from c2 lp ls have "length (pendingTransactions ?e') = 0" by simp
  then have gone: "pendingTransactions ?e' = []" by simp
  show ?thesis
    by (intro conjI ne state(3) inv state(1) sel c1 c2 gone)
qed

lemma executeBundle_leaves_shards:
  "shardManager (engine_after_execute bid send now e) = shardManager e"
  by (simp add: engine_after_execute_def executeBundleTransactions_def Let_def
      split: prod.splits)

text \<open>
  C1. The claim is that a call of \<open>executeBundle\<close> removes every selected transfer from
  all pending indexes, the shard included. The code removes it from the pending pool,
  from the priority queue and from the groups of the optimizer, and does not touch the
  \<open>ShardManager\<close>: \<open>removeTransactionsFromShard\<close> is never called. After one admission
  (sharding enabled, as by default) and one \<open>executeBundle\<close>, the executed transfer is
  gone from the three other indexes and still sits in its shard, whose load is still 1.
\<close>

theorem executeBundle_keeps_shard_membership:
  "(case addTransaction_enqueue (\<lambda>key. 0) (\<lambda>n. ''1000'') (Engine_new test_sharding_config 0 0)
          (test_transaction ''tx1'') 0 of
      Inl err \<Rightarrow> False
    | Inr (p, shardIndex, e1) \<Rightarrow>
        (let e2 = engine_after_execute ''bundle1'' (\<lambda>tx. Some ''sig'') 1 e1 in
         map tx_id (transactionsToExecute e1) = [''tx1'']
         \<and> pendingTransactions e2 = []
         \<and> priorityQueue (transactionOptimizer e2) = []
         \<and> transactionGroups (transactionOptimizer e2) = []
         \<and> map tx_id (transactions (shards (shardManager e2) ! shardIndex)) = [''tx1'']
         \<and> load (shards (shardManager e2) ! shardIndex) = 1))"
  by (simp add: addTransaction_enqueue_def Engine_new_def test_sharding_config_def
      test_transaction_def TransactionOptimizer_addTransaction_def TransactionOptimizer_new_def
      TransactionOptimizer_calculatePriority_def ShardManager_assignToShard_def
      ShardManager_getShardIndex_def ShardManager_new_def engine_after_execute_def
      executeBundleTransactions_def transactionsToExecute_def
      TransactionOptimizer_getOptimizedTransactions_def TransactionOptimizer_removeTransactions_def
      BUNDLE_SIZE_def Let_def)

section \<open>ReentrancyGuard: properties\<close>

text \<open>What the operations of the guard do to the locks and to the queues.\<close>

lemma logOperation_frame:
  "ReentrancyGuard_isLocked (ReentrancyGuard_logOperation g k st) k' = ReentrancyGuard_isLocked g k'"
  "waiting (ReentrancyGuard_logOperation g k st) k' = waiting g k'"
  by (simp_all add: ReentrancyGuard_logOperation_def ReentrancyGuard_isLocked_def waiting_def
      Let_def)

lemma lock_frame:
  "ReentrancyGuard_isLocked (ReentrancyGuard_lock g k) k' = (k' = k \<or> ReentrancyGuard_isLocked g k')"
  "waiting (ReentrancyGuard_lock g k) k' = waiting g k'"
  by (simp_all add: ReentrancyGuard_lock_def ReentrancyGuard_isLocked_def waiting_def)

lemma unlock_frame:
  "ReentrancyGuard_isLocked (ReentrancyGuard_unlock g k) k' = (k' \<noteq> k \<and> ReentrancyGuard_isLocked g k')"
  "waiting (ReentrancyGuard_unlock g k) k' = waiting g k'"
  by (simp_all add: ReentrancyGuard_unlock_def ReentrancyGuard_isLocked_def waiting_def)

lemma addToPendingQueue_frame:
  "ReentrancyGuard_isLocked (ReentrancyGuard_addToPendingQueue g k f) k' = ReentrancyGuard_isLocked g k'"
  "waiting (ReentrancyGuard_addToPendingQueue g k f) k' =
     (if k' = k then waiting g k @ [f] else waiting g k')"
  by (simp_all add: ReentrancyGuard_addToPendingQueue_def ReentrancyGuard_isLocked_def waiting_def)

lemma enter_locked:
  assumes "k \<noteq> []" and "ReentrancyGuard_isLocked g k"
  shows "\<exists>g'. executeWithGuard_enter g k f = Inr (Queued, g')
      \<and> (\<forall>k'. ReentrancyGuard_isLocked g' k' = ReentrancyGuard_isLocked g k')
      \<and> (\<forall>k'. waiting g' k' = (if k' = k then waiting g k @ [f] else waiting g k'))"
  using assms
  by (simp add: executeWithGuard_enter_def addToPendingQueue_frame logOperation_frame)

lemma enter_free:
  assumes "k \<noteq> []" and "\<not> ReentrancyGuard_isLocked g k"
  shows "\<exists>g'. executeWithGuard_enter g k f = Inr (Started f, g')
      \<and> (\<forall>k'. ReentrancyGuard_isLocked g' k' = (k' = k \<or> ReentrancyGuard_isLocked g k'))
      \<and> (\<forall>k'. waiting g' k' = waiting g k')"
  using assms
  by (simp add: executeWithGuard_enter_def lock_frame logOperation_frame)

lemma enter_invalid: "executeWithGuard_enter g [] f = Inl InvalidOperationId"
  by (simp add: executeWithGuard_enter_def)

lemma processPending_idle:
  assumes "waiting g k = []"
  shows "ReentrancyGuard_processPendingOperations g k = (None, g)"
  using assms
  by (simp add: ReentrancyGuard_processPendingOperations_def waiting_def
      split: option.splits list.splits)

lemma processPending_next:
  assumes "k \<noteq> []" and "\<not> ReentrancyGuard_isLocked g k" and "waiting g k = n # rest"
  shows "\<exists>g'. ReentrancyGuard_processPendingOperations g k = (Some n, g')
      \<and> (\<forall>k'. ReentrancyGuard_isLocked g' k' = (k' = k \<or> ReentrancyGuard_isLocked g k'))
      \<and> (\<forall>k'. waiting g' k' = (if k' = k then rest else waiting g k'))"
proof -
  let ?g1 = "g\<lparr>pendingOperations :=
                 (if rest = [] then (pendingOperations g)(k := None)
                  else (pendingOperations g)(k \<mapsto> rest))\<rparr>"
  from assms(3) have p: "pendingOperations g k = Some (n # rest)"
    by (simp add: waiting_def split: option.splits)
  have l1: "ReentrancyGuard_isLocked ?g1 k' = ReentrancyGuard_isLocked g k'" for k'
    by (simp add: ReentrancyGuard_isLocked_def)
  have w1: "waiting ?g1 k' = (if k' = k then rest else waiting g k')" for k'
    by (simp add: waiting_def)
  from assms(2) have "\<not> ReentrancyGuard_isLocked ?g1 k" by (simp add: l1)
  from enter_free [OF assms(1) this, of n] obtain g'
    where e: "executeWithGuard_enter ?g1 k n = Inr (Started n, g')"
      and l: "\<forall>k'. ReentrancyGuard_isLocked g' k' = (k' = k \<or> ReentrancyGuard_isLocked ?g1 k')"
      and w: "\<forall>k'. waiting g' k' = waiting ?g1 k'"
    by blast
  have "ReentrancyGuard_processPendingOperations g k = (Some n, g')"
    by (simp add: ReentrancyGuard_processPendingOperations_def p e Let_def)
  moreover have "\<forall>k'. ReentrancyGuard_isLocked g' k' = (k' = k \<or> ReentrancyGuard_isLocked g k')"
    using l by (simp add: l1)
  moreover have "\<forall>k'. waiting g' k' = (if k' = k then rest else waiting g k')"
    using w by (simp add: w1)
  ultimately show ?thesis by blast
qed

lemma exit_idle:
  assumes "waiting g k = []"
  shows "\<exists>g'. executeWithGuard_exit g k ok = (None, g')
      \<and> (\<forall>k'. ReentrancyGuard_isLocked g' k' = (k' \<noteq> k \<and> ReentrancyGuard_isLocked g k'))
      \<and> (\<forall>k'. waiting g' k' = waiting g k')"
  using assms
  by (simp add: executeWithGuard_exit_def processPending_idle unlock_frame logOperation_frame)

lemma exit_next:
  assumes "k \<noteq> []" and "waiting g k = n # rest"
  shows "\<exists>g'. executeWithGuard_exit g k ok = (Some n, g')
      \<and> (\<forall>k'. ReentrancyGuard_isLocked g' k' = (k' = k \<or> ReentrancyGuard_isLocked g k'))
      \<and> (\<forall>k'. waiting g' k' = (if k' = k then rest else waiting g k'))"
proof -
  let ?g0 = "ReentrancyGuard_unlock
          (ReentrancyGuard_logOperation g k (if ok then complete else failed)) k"
  have a: "\<not> ReentrancyGuard_isLocked ?g0 k" by (simp add: unlock_frame)
  have b: "waiting ?g0 k = n # rest" using assms(2) by (simp add: unlock_frame logOperation_frame)
  from processPending_next [OF assms(1) a b] obtain g'
    where r: "ReentrancyGuard_processPendingOperations ?g0 k = (Some n, g')"
      and l: "\<forall>k'. ReentrancyGuard_isLocked g' k' = (k' = k \<or> ReentrancyGuard_isLocked ?g0 k')"
      and w: "\<forall>k'. waiting g' k' = (if k' = k then rest else waiting ?g0 k')"
    by blast
  have "executeWithGuard_exit g k ok = (Some n, g')"
    by (simp add: executeWithGuard_exit_def r)
  moreover have "\<forall>k'. ReentrancyGuard_isLocked g' k' = (k' = k \<or> ReentrancyGuard_isLocked g k')"
    using l by (auto simp: unlock_frame logOperation_frame)
  moreover have "\<forall>k'. waiting g' k' = (if k' = k then rest else waiting g k')"
    using w by (simp add: unlock_frame logOperation_frame)
  ultimately show ?thesis by blast
qed

lemma calls_append: "calls k (evs @ evs') = calls k evs @ calls k evs'"
  by (induction k evs rule: calls.induct) auto

lemma begun_append: "begun k (h @ h') = begun k h @ begun k h'"
  by (induction k h rule: begun.induct) auto

lemma ended_append: "ended k (h @ h') = ended k h @ ended k h'"
  by (induction k h rule: ended.induct) auto

lemma sequential_append:
  "sequential k c (h @ h') =
     (case sequential k c h of None \<Rightarrow> None | Some c' \<Rightarrow> sequential k c' h')"
  by (induction k c h rule: sequential.induct) (auto split: option.splits)

lemma run_snoc: "run (evs @ [ev]) = step ev (run evs)"
  by (simp add: run_def)

lemma filter_single_nth:
  assumes "i < length xs" and "P (xs ! i)" and "length (filter P xs) \<le> 1"
  shows "filter P xs = [xs ! i]" and "filter P (remove_nth i xs) = []"
proof -
  have xs: "take i xs @ xs ! i # drop (Suc i) xs = xs"
    using assms(1) by (rule id_take_nth_drop [symmetric])
  have "length (filter P (take i xs @ xs ! i # drop (Suc i) xs)) \<le> 1"
    using assms(3) by (simp only: xs)
  then have e: "filter P (take i xs) = []" "filter P (drop (Suc i) xs) = []"
    using assms(2) by simp_all
  have "filter P (take i xs @ xs ! i # drop (Suc i) xs) = [xs ! i]"
    using e assms(2) by simp
  then show "filter P xs = [xs ! i]" by (simp only: xs)
  show "filter P (remove_nth i xs) = []"
    using e by (simp add: remove_nth_def)
qed

lemma filter_remove_other:
  assumes "i < length xs" and "\<not> P (xs ! i)"
  shows "filter P (remove_nth i xs) = filter P xs"
proof -
  have xs: "take i xs @ xs ! i # drop (Suc i) xs = xs"
    using assms(1) by (rule id_take_nth_drop [symmetric])
  have "filter P (take i xs @ xs ! i # drop (Suc i) xs) = filter P (take i xs @ drop (Suc i) xs)"
    using assms(2) by simp
  then show ?thesis by (simp only: xs remove_nth_def)
qed


lemma processPending_frame:
  assumes "k \<noteq> k'"
  shows "ReentrancyGuard_isLocked (snd (ReentrancyGuard_processPendingOperations g k')) k
           = ReentrancyGuard_isLocked g k"
    and "waiting (snd (ReentrancyGuard_processPendingOperations g k')) k = waiting g k"
proof -
  show "ReentrancyGuard_isLocked (snd (ReentrancyGuard_processPendingOperations g k')) k
           = ReentrancyGuard_isLocked g k"
    using assms
    by (auto simp: ReentrancyGuard_processPendingOperations_def executeWithGuard_enter_def
        addToPendingQueue_frame logOperation_frame lock_frame Let_def
        ReentrancyGuard_isLocked_def [of "g\<lparr>pendingOperations := p\<rparr>" for p]
        ReentrancyGuard_isLocked_def [of g]
        split: option.splits list.splits)
  show "waiting (snd (ReentrancyGuard_processPendingOperations g k')) k = waiting g k"
    using assms
    by (auto simp: ReentrancyGuard_processPendingOperations_def executeWithGuard_enter_def
        addToPendingQueue_frame logOperation_frame lock_frame Let_def
        waiting_def [of "g\<lparr>pendingOperations := p\<rparr>" for p]
        waiting_def [of g]
        split: option.splits list.splits)
qed

lemma exit_frame:
  assumes "k \<noteq> k'"
  shows "ReentrancyGuard_isLocked (snd (executeWithGuard_exit g k' ok)) k
           = ReentrancyGuard_isLocked g k"
    and "waiting (snd (executeWithGuard_exit g k' ok)) k = waiting g k"
  using assms
  by (simp_all add: executeWithGuard_exit_def processPending_frame unlock_frame logOperation_frame)

lemma enter_frame:
  assumes "k \<noteq> k'" and "executeWithGuard_enter g k' f = Inr (r, g')"
  shows "ReentrancyGuard_isLocked g' k = ReentrancyGuard_isLocked g k"
    and "waiting g' k = waiting g k"
  using assms
  by (auto simp: executeWithGuard_enter_def addToPendingQueue_frame logOperation_frame lock_frame
      split: if_splits)


lemma running_under_simps:
  "running_under k (s\<lparr>guard := g\<rparr>) = running_under k s"
  "running_under k (s\<lparr>history := h\<rparr>) = running_under k s"
  "running_under k (s\<lparr>running := r\<rparr>) = map snd (filter (\<lambda>p. fst p = k) r)"
  by (simp_all add: running_under_def)

lemma step_Call_same:
  assumes k: "k \<noteq> []" and inv: "key_inv k s cs"
  shows "key_inv k (step (Call k f) s) (cs @ [f])"
proof (cases "ReentrancyGuard_isLocked (guard s) k")
  case True
  from enter_locked [OF k True, of f] obtain g'
    where e: "executeWithGuard_enter (guard s) k f = Inr (Queued, g')"
      and l: "\<forall>k'. ReentrancyGuard_isLocked g' k' = ReentrancyGuard_isLocked (guard s) k'"
      and w: "\<forall>k'. waiting g' k' = (if k' = k then waiting (guard s) k @ [f] else waiting (guard s) k')"
    by blast
  have st: "step (Call k f) s = s\<lparr>guard := g'\<rparr>" by (simp add: e)
  from inv True show ?thesis
    unfolding st key_inv_def by (simp add: l w running_under_simps)
next
  case False
  from enter_free [OF k False, of f] obtain g'
    where e: "executeWithGuard_enter (guard s) k f = Inr (Started f, g')"
      and l: "\<forall>k'. ReentrancyGuard_isLocked g' k' = (k' = k \<or> ReentrancyGuard_isLocked (guard s) k')"
      and w: "\<forall>k'. waiting g' k' = waiting (guard s) k'"
    by blast
  have st: "step (Call k f) s =
      s\<lparr>guard := g', running := running s @ [(k, f)], history := history s @ [Begin k f]\<rparr>"
    by (simp add: e)
  from inv False have idle: "running_under k s = []" and nowait: "waiting (guard s) k = []"
    by (simp_all add: key_inv_def)
  from idle have r: "map snd (filter (\<lambda>p. fst p = k) (running s)) = []"
    by (simp add: running_under_def)
  from inv idle nowait show ?thesis
    unfolding st key_inv_def
    by (simp add: l w running_under_simps r begun_append ended_append sequential_append)
qed

lemma step_Call_other:
  assumes kk: "k \<noteq> k'" and inv: "key_inv k s cs"
  shows "key_inv k (step (Call k' f) s) cs"
proof (cases "executeWithGuard_enter (guard s) k' f")
  case (Inl err)
  then have "step (Call k' f) s = s" by simp
  with inv show ?thesis by simp
next
  case (Inr p)
  obtain r g' where p: "p = (r, g')" by (cases p)
  note fr = enter_frame [OF kk Inr [unfolded p]]
  from kk have nk: "k' \<noteq> k" by simp
  show ?thesis
  proof (cases r)
    case Queued
    then have st: "step (Call k' f) s = s\<lparr>guard := g'\<rparr>" by (simp add: Inr p)
    from inv show ?thesis
      unfolding st key_inv_def by (simp add: fr running_under_simps)
  next
    case (Started f')
    then have st: "step (Call k' f) s =
        s\<lparr>guard := g', running := running s @ [(k', f')],
          history := history s @ [Begin k' f']\<rparr>"
      by (simp add: Inr p)
    have r: "map snd (filter (\<lambda>p. fst p = k) (running s)) = running_under k s"
      by (simp add: running_under_def)
    from inv show ?thesis
      unfolding st key_inv_def
      by (simp add: fr running_under_simps r nk begun_append ended_append sequential_append)
  qed
qed


lemma step_Settle_same:
  assumes k: "k \<noteq> []" and inv: "key_inv k s cs"
    and i: "i < length (running s)" and at: "running s ! i = (k, f)"
  shows "key_inv k (step (Settle i ok) s) cs"
proof -
  let ?P = "\<lambda>p. fst p = k"
  from inv have one: "length (filter ?P (running s)) \<le> 1"
    by (simp add: key_inv_def running_under_def)
  have Pi: "?P (running s ! i)" by (simp add: at)
  note sgl = filter_single_nth [where P = "?P", OF i Pi one]
  have ru: "running_under k s = [f]" by (simp add: running_under_def sgl(1) at)
  show ?thesis
  proof (cases "waiting (guard s) k")
    case Nil
    from exit_idle [OF Nil, of ok] obtain g'
      where e: "executeWithGuard_exit (guard s) k ok = (None, g')"
        and l: "\<forall>k'. ReentrancyGuard_isLocked g' k' = (k' \<noteq> k \<and> ReentrancyGuard_isLocked (guard s) k')"
        and w: "\<forall>k'. waiting g' k' = waiting (guard s) k'"
      by blast
    have st: "step (Settle i ok) s =
        s\<lparr>guard := g', running := remove_nth i (running s),
          history := history s @ [End k f]\<rparr>"
      using i by (simp add: at e)
    from inv ru Nil show ?thesis
      unfolding st key_inv_def
      by (simp add: l w running_under_simps sgl(2) begun_append ended_append sequential_append)
  next
    case (Cons n rest)
    from exit_next [OF k Cons, of ok] obtain g'
      where e: "executeWithGuard_exit (guard s) k ok = (Some n, g')"
        and l: "\<forall>k'. ReentrancyGuard_isLocked g' k' = (k' = k \<or> ReentrancyGuard_isLocked (guard s) k')"
        and w: "\<forall>k'. waiting g' k' = (if k' = k then rest else waiting (guard s) k')"
      by blast
    have st: "step (Settle i ok) s =
        s\<lparr>guard := g', running := remove_nth i (running s) @ [(k, n)],
          history := history s @ [End k f, Begin k n]\<rparr>"
      using i by (simp add: at e)
    from inv ru Cons show ?thesis
      unfolding st key_inv_def
      by (simp add: l w running_under_simps sgl(2) begun_append ended_append sequential_append)
  qed
qed

lemma step_Settle_other:
  assumes kk: "k \<noteq> k'" and inv: "key_inv k s cs"
    and i: "i < length (running s)" and at: "running s ! i = (k', f)"
  shows "key_inv k (step (Settle i ok) s) cs"
proof -
  let ?P = "\<lambda>p. fst p = k"
  from kk have nk: "k' \<noteq> k" by simp
  have nP: "\<not> ?P (running s ! i)" using nk by (simp add: at)
  have "filter ?P (remove_nth i (running s)) = filter ?P (running s)"
    using i nP by (rule filter_remove_other [where P = "?P"])
  then have r: "map snd (filter ?P (remove_nth i (running s))) = running_under k s"
    by (simp add: running_under_def)
  obtain nxt g' where e: "executeWithGuard_exit (guard s) k' ok = (nxt, g')"
    by (cases "executeWithGuard_exit (guard s) k' ok")
  from exit_frame [OF kk, of "guard s" ok] e
  have fr: "ReentrancyGuard_isLocked g' k = ReentrancyGuard_isLocked (guard s) k"
      "waiting g' k = waiting (guard s) k"
    by simp_all
  show ?thesis
  proof (cases nxt)
    case None
    have st: "step (Settle i ok) s =
        s\<lparr>guard := g', running := remove_nth i (running s),
          history := history s @ [End k' f]\<rparr>"
      using i by (simp add: at e None)
    from inv show ?thesis
      unfolding st key_inv_def
      by (simp add: fr running_under_simps r nk begun_append ended_append sequential_append)
  next
    case (Some n)
    have st: "step (Settle i ok) s =
        s\<lparr>guard := g', running := remove_nth i (running s) @ [(k', n)],
          history := history s @ [End k' f, Begin k' n]\<rparr>"
      using i by (simp add: at e Some)
    from inv show ?thesis
      unfolding st key_inv_def
      by (simp add: fr running_under_simps r nk begun_append ended_append sequential_append)
  qed
qed

lemma step_key_inv:
  assumes k: "k \<noteq> []" and inv: "key_inv k s cs"
  shows "key_inv k (step ev s) (cs @ calls k [ev])"
proof (cases ev)
  case (Call k' f)
  show ?thesis
  proof (cases "k' = k")
    case True
    with step_Call_same [OF k inv, of f] Call show ?thesis by simp
  next
    case False
    then have "k \<noteq> k'" by simp
    from step_Call_other [OF this inv, of f] Call False show ?thesis by simp
  qed
next
  case (Settle i ok)
  show ?thesis
  proof (cases "i < length (running s)")
    case False
    with inv Settle show ?thesis by simp
  next
    case True
    obtain k' f where at: "running s ! i = (k', f)" by (cases "running s ! i")
    show ?thesis
    proof (cases "k' = k")
      case True
      with step_Settle_same [OF k inv \<open>i < length (running s)\<close>, of f ok] at Settle
      show ?thesis by simp
    next
      case False
      then have "k \<noteq> k'" by simp
      from step_Settle_other [OF this inv \<open>i < length (running s)\<close> at, of ok] Settle
      show ?thesis by simp
    qed
  qed
qed

lemma initial_key_inv: "key_inv k initial_system []"
  by (simp add: key_inv_def initial_system_def ReentrancyGuard_new_def
      ReentrancyGuard_isLocked_def waiting_def running_under_def)

lemma run_key_inv:
  assumes "k \<noteq> []"
  shows "key_inv k (run evs) (calls k evs)"
proof (induction evs rule: rev_induct)
  case Nil
  show ?case by (simp add: run_def initial_key_inv)
next
  case (snoc ev evs)
  from step_key_inv [OF assms snoc.IH, of ev] show ?case
    by (simp add: run_snoc calls_append)
qed


text \<open>
  C2. For every operation identifier \<open>k\<close> and after any sequence of calls of
  \<open>executeWithGuard\<close> and of settlings of guarded functions: at most one guarded function
  runs under \<open>k\<close>, and one runs exactly when \<open>k\<close> is locked; the starts and ends under
  \<open>k\<close> alternate, each end being that of the function started last (no two executions
  overlap); the functions started so far, followed by the queue of \<open>k\<close>, are the functions
  passed in the calls, in the order of the calls (first in, first out, none skipped, none
  run twice); and whenever none runs under \<open>k\<close>, nothing waits and the executions that
  have ended are exactly the calls made, in their order: \<open>N\<close> calls, \<open>N\<close> executions.
\<close>

theorem ReentrancyGuard_exclusive_fifo:
  assumes "k \<noteq> []"
  shows "length (running_under k (run evs)) \<le> 1
    \<and> (ReentrancyGuard_isLocked (guard (run evs)) k \<longleftrightarrow> running_under k (run evs) \<noteq> [])
    \<and> sequential k None (history (run evs)) \<noteq> None
    \<and> begun k (history (run evs)) @ waiting (guard (run evs)) k = calls k evs
    \<and> ended k (history (run evs)) @ running_under k (run evs) = begun k (history (run evs))
    \<and> (running_under k (run evs) = [] \<longrightarrow>
          waiting (guard (run evs)) k = []
          \<and> ended k (history (run evs)) = calls k evs
          \<and> length (ended k (history (run evs))) = length (calls k evs))"
proof -
  note inv = run_key_inv [OF assms, of evs, unfolded key_inv_def]
  from inv have a: "length (running_under k (run evs)) \<le> 1" by blast
  from inv have b: "ReentrancyGuard_isLocked (guard (run evs)) k \<longleftrightarrow> running_under k (run evs) \<noteq> []"
    by blast
  from inv have c: "sequential k None (history (run evs)) \<noteq> None" by simp
  from inv have d: "begun k (history (run evs)) @ waiting (guard (run evs)) k = calls k evs"
    by blast
  from inv have e: "ended k (history (run evs)) @ running_under k (run evs) = begun k (history (run evs))"
    by blast
  from inv have w: "\<not> ReentrancyGuard_isLocked (guard (run evs)) k \<longrightarrow> waiting (guard (run evs)) k = []"
    by blast
  have f: "waiting (guard (run evs)) k = []
          \<and> ended k (history (run evs)) = calls k evs
          \<and> length (ended k (history (run evs))) = length (calls k evs)"
    if idle: "running_under k (run evs) = []"
  proof -
    from b idle w have nw: "waiting (guard (run evs)) k = []" by simp
    from e idle have "ended k (history (run evs)) = begun k (history (run evs))" by simp
    with d nw have "ended k (history (run evs)) = calls k evs" by simp
    with nw show ?thesis by simp
  qed
  from a b c d e f show ?thesis by blast
qed

theorem ReentrancyGuard_exclusive_fifo_witness:
  "''queue_test'' \<noteq> []
   \<and> history (run [Call ''queue_test'' (1::nat), Call ''queue_test'' 2, Call ''queue_test'' 3,
                   Settle 0 True, Settle 0 False, Settle 0 True])
       = [Begin ''queue_test'' 1, End ''queue_test'' 1, Begin ''queue_test'' 2,
          End ''queue_test'' 2, Begin ''queue_test'' 3, End ''queue_test'' 3]
   \<and> running_under ''queue_test''
        (run [Call ''queue_test'' (1::nat), Call ''queue_test'' 2, Call ''queue_test'' 3,
              Settle 0 True, Settle 0 False, Settle 0 True]) = []
   \<and> ended ''queue_test''
        (history (run [Call ''queue_test'' (1::nat), Call ''queue_test'' 2, Call ''queue_test'' 3,
                       Settle 0 True, Settle 0 False, Settle 0 True])) = [1, 2, 3]"
proof -
  let ?evs = "[Call ''queue_test'' (1::nat), Call ''queue_test'' 2, Call ''queue_test'' 3,
               Settle 0 True, Settle 0 False, Settle 0 True]"
  have k: "''queue_test'' \<noteq> []" by simp
  have h: "history (run ?evs)
       = [Begin ''queue_test'' 1, End ''queue_test'' 1, Begin ''queue_test'' 2,
          End ''queue_test'' 2, Begin ''queue_test'' 3, End ''queue_test'' 3]"
    and idle: "running_under ''queue_test'' (run ?evs) = []"
    by (simp_all add: run_def initial_system_def ReentrancyGuard_new_def
        executeWithGuard_enter_def executeWithGuard_exit_def
        ReentrancyGuard_processPendingOperations_def ReentrancyGuard_isLocked_def
        ReentrancyGuard_lock_def ReentrancyGuard_unlock_def ReentrancyGuard_logOperation_def
        ReentrancyGuard_addToPendingQueue_def remove_nth_def running_under_def Let_def)
  note T = ReentrancyGuard_exclusive_fifo [OF k, of ?evs]
  from T idle have "ended ''queue_test'' (history (run ?evs)) = calls ''queue_test'' ?evs"
    by blast
  then have e: "ended ''queue_test'' (history (run ?evs)) = [1, 2, 3]" by simp
  from k h idle e show ?thesis by blast
qed

end
